theory Spec2Isabelle
  imports Main "HOL-Library.Multiset"
begin

section \<open>The model graph (common/ModelGraph.ts)\<close>

text \<open>
  The worker builds a \<open>ModelGraph\<close> out of an input \<open>GraphData\<close> and then mutates the
  node objects in place. Node objects are shared between \<open>modelGraph.nodes\<close>,
  \<open>modelGraph.nodesById\<close> and \<open>modelGraph.rootNodes\<close>; the code pushes every object it
  creates onto \<open>modelGraph.nodes\<close> and never removes one, so the array \<open>nodes\<close> is the store
  of the model: a reference to a node object is its position in \<open>nodes\<close>, and the index
  \<open>nodesById\<close>, the list \<open>rootNodes\<close> and the work queues hold such references.

  \<open>AssetNode\<close> and \<open>GroupNode\<close> are one record \<open>ModelNode\<close> carrying the fields of both:
  the code casts freely between them (\<open>as AssetNode\<close>) and TypeScript erases the
  difference at run time. An optional field is an \<open>option\<close>; the optional booleans
  \<open>hideInLayout\<close> and \<open>sectionContainer\<close> are only ever tested for truthiness, so
  \<open>undefined\<close> is \<open>False\<close>. The geometry fields other than \<open>width\<close> and \<open>height\<close> are never
  touched by the sources and are left out. \<open>nodesById\<close> and the other plain objects used
  as dictionaries are maps; ids that are property names of \<open>Object.prototype\<close> are outside
  the model.
\<close>

datatype NodeType = ASSET_NODE | GROUP_NODE

record Edge =
  sourceNodeId :: string
  targetNodeId :: string

record ModelNode =
  nodeType :: NodeType
  namespace :: string
  node_id :: string
  parentId :: "string option"
  level :: nat
  width :: "int option"
  height :: "int option"
  incomingEdges :: "Edge list option"
  outgoingEdges :: "Edge list option"
  hideInLayout :: bool
  childrenIds :: "string list option"
  descendantsNodeIds :: "string list option"
  descendantsAssetNodeIds :: "string list option"
  expanded :: bool
  sectionContainer :: bool

record ModelEdge =
  edge_id :: string
  fromNodeId :: string
  toNodeId :: string

text \<open>
  The two statistics fields are JavaScript numbers. The code stores \<open>-1\<close>, a list length,
  \<open>Number.MAX_VALUE\<close> or \<open>Number.NEGATIVE_INFINITY\<close> in them and nothing else. An array
  length is below \<open>2^32\<close>, far below \<open>Number.MAX_VALUE\<close>.
\<close>

datatype JSNumber = NEGATIVE_INFINITY | Finite int | MAX_VALUE

fun js_le :: "JSNumber \<Rightarrow> JSNumber \<Rightarrow> bool" where
  "js_le NEGATIVE_INFINITY _ = True"
| "js_le (Finite a) NEGATIVE_INFINITY = False"
| "js_le (Finite a) (Finite b) = (a \<le> b)"
| "js_le (Finite a) MAX_VALUE = True"
| "js_le MAX_VALUE MAX_VALUE = True"
| "js_le MAX_VALUE _ = False"

definition Math_min :: "JSNumber \<Rightarrow> JSNumber \<Rightarrow> JSNumber" where
  "Math_min a b = (if js_le a b then a else b)"

definition Math_max :: "JSNumber \<Rightarrow> JSNumber \<Rightarrow> JSNumber" where
  "Math_max a b = (if js_le a b then b else a)"

record ModelGraph =
  graph_id :: string
  nodes :: "ModelNode list"
  artificialGroupNodeIds :: "string list option"
  nodesById :: "string \<rightharpoonup> nat"
  rootNodes :: "nat list"
  edgesByGroupNodeIds :: "string \<rightharpoonup> ModelEdge list"
  maxDescendantAssetNodeCount :: JSNumber
  minDescendantAssetNodeCount :: JSNumber
  layoutGraphEdges :: "string \<rightharpoonup> (string \<times> string list) list"

text \<open>Reading and writing a node object through a reference.\<close>

definition node_at :: "ModelGraph \<Rightarrow> nat \<Rightarrow> ModelNode" where
  "node_at mg r = nodes mg ! r"

definition upd_node :: "nat \<Rightarrow> (ModelNode \<Rightarrow> ModelNode) \<Rightarrow> ModelGraph \<Rightarrow> ModelGraph" where
  "upd_node r f mg = mg\<lparr>nodes := (nodes mg)[r := f (nodes mg ! r)]\<rparr>"

text \<open>
  \<open>modelGraph.nodes.push(node); modelGraph.nodesById[node.id] = node\<close>: the new object
  gets the next free reference.
\<close>

definition push_node :: "ModelNode \<Rightarrow> ModelGraph \<Rightarrow> ModelGraph" where
  "push_node n mg =
     mg\<lparr>nodes := nodes mg @ [n], nodesById := (nodesById mg)(node_id n \<mapsto> length (nodes mg))\<rparr>"

text \<open>
  Errors and fuel. A \<open>TypeError\<close> is what JavaScript throws on reading a property of
  \<open>undefined\<close>; \<open>CacheMiss\<close> is the \<open>Error\<close> thrown by \<open>getCachedModelGraph\<close>. A function
  whose recursion or loop the source does not bound takes fuel and returns \<open>None\<close> when
  the fuel runs out; \<open>Some (Inl e)\<close> is a throw and \<open>Some (Inr x)\<close> a normal return.
\<close>

datatype error = TypeError | CacheMiss

type_synonym 'a result = "(error + 'a) option"

fun foldM :: "('a \<Rightarrow> 's \<Rightarrow> 's result) \<Rightarrow> 'a list \<Rightarrow> 's \<Rightarrow> 's result" where
  "foldM f [] s = Some (Inr s)"
| "foldM f (x # xs) s =
     (case f x s of
        None \<Rightarrow> None
      | Some (Inl e) \<Rightarrow> Some (Inl e)
      | Some (Inr s') \<Rightarrow> foldM f xs s')"

text \<open>
  Modelled from the spec: \<open>isAssetNode\<close> and \<open>isGroupNode\<close> of \<open>common/utils\<close> are not among
  the sources. The spec speaks of "a group" and "an asset node"; they test the
  \<open>nodeType\<close> discriminator, and the callers pass them \<open>undefined\<close> (a failed index
  lookup) and rely on the answer \<open>false\<close>.
\<close>

definition isAssetNode :: "ModelNode option \<Rightarrow> bool" where
  "isAssetNode n = (case n of None \<Rightarrow> False | Some x \<Rightarrow> nodeType x = ASSET_NODE)"

definition isGroupNode :: "ModelNode option \<Rightarrow> bool" where
  "isGroupNode n = (case n of None \<Rightarrow> False | Some x \<Rightarrow> nodeType x = GROUP_NODE)"

text \<open>\<open>modelGraph.nodesById[id]\<close> as a node object, \<open>undefined\<close> when the id is not indexed.\<close>

definition lookup :: "ModelGraph \<Rightarrow> string \<Rightarrow> ModelNode option" where
  "lookup mg k = map_option (node_at mg) (nodesById mg k)"

text \<open>\<open>node.incomingEdges || []\<close>, \<open>node.outgoingEdges || []\<close>, \<open>node.childrenIds || []\<close>.\<close>

definition ins :: "ModelNode \<Rightarrow> Edge list" where
  "ins n = (case incomingEdges n of None \<Rightarrow> [] | Some es \<Rightarrow> es)"

definition outs :: "ModelNode \<Rightarrow> Edge list" where
  "outs n = (case outgoingEdges n of None \<Rightarrow> [] | Some es \<Rightarrow> es)"

definition children_of :: "ModelNode \<Rightarrow> string list" where
  "children_of n = (case childrenIds n of None \<Rightarrow> [] | Some cs \<Rightarrow> cs)"

section \<open>The input graph\<close>

text \<open>
  \<open>GraphData\<close> comes from \<open>asset-graph/Utils\<close>, which is not among the sources. The
  processor reads \<open>Object.values(graph.nodes)\<close>, each node's \<open>id\<close>, and
  \<open>Object.keys(graph.upstream[id] || {})\<close>; the model holds exactly these. The imported
  function \<open>groupIdForNode\<close> is a parameter.
\<close>

record GraphNode =
  gn_id :: string
  gn_definition :: string

record GraphData =
  gd_nodes :: "GraphNode list"
  upstream :: "string \<rightharpoonup> string list"

text \<open>
  \<open>getLayoutGraph\<close> of \<open>worker/GraphLayout\<close> is not among the sources either. The
  splitter reads three things of the graph it returns: \<open>Object.keys(layoutGraph.nodes)\<close>,
  \<open>layoutGraph.incomingEdges[id]\<close> and \<open>layoutGraph.outgoingEdges[id]\<close>.
\<close>

record LayoutGraph =
  lg_nodes :: "string list"
  lg_incomingEdges :: "string \<rightharpoonup> string list"
  lg_outgoingEdges :: "string \<rightharpoonup> string list"

text \<open>
  The processor: the five constructor arguments, and the two imported functions the
  sources do not contain, \<open>groupIdForNode\<close> and \<open>getLayoutGraph\<close> (called with the root
  id, the children, the model graph, \<open>testMode\<close> and the fake-size flag). The threshold is
  a JavaScript number that is only compared with list lengths.
\<close>

record GraphProcessor =
  paneId :: string
  graph :: GraphData
  groupNodeChildrenCountThreshold :: int
  testMode :: bool
  flattenLayers :: bool
  groupIdForNode :: "GraphNode \<Rightarrow> string"
  getLayoutGraph :: "string \<Rightarrow> nat option list \<Rightarrow> ModelGraph \<Rightarrow> bool \<Rightarrow> bool \<Rightarrow> LayoutGraph"

section \<open>GraphProcessor: building nodes and edges\<close>

definition createEmptyModelGraph :: ModelGraph where
  "createEmptyModelGraph =
     \<lparr>graph_id = ''<ROOT>'', nodes = [], artificialGroupNodeIds = None, nodesById = Map.empty,
      rootNodes = [], edgesByGroupNodeIds = Map.empty,
      maxDescendantAssetNodeCount = Finite (- 1), minDescendantAssetNodeCount = Finite (- 1),
      layoutGraphEdges = Map.empty\<rparr>"

definition new_node :: "NodeType \<Rightarrow> string \<Rightarrow> nat \<Rightarrow> string \<Rightarrow> ModelNode" where
  "new_node t i l ns =
     \<lparr>nodeType = t, namespace = ns, node_id = i, parentId = None, level = l,
      width = None, height = None, incomingEdges = None, outgoingEdges = None,
      hideInLayout = False, childrenIds = None, descendantsNodeIds = None,
      descendantsAssetNodeIds = None, expanded = False, sectionContainer = False\<rparr>"

text \<open>
  The body of the loop of \<open>processNodes\<close>, with the set \<open>seenGroups\<close> threaded through.
  The fresh asset node has no \<open>hideInLayout\<close>, so the test \<open>!assetNode.hideInLayout\<close> reads
  the field of the object just built.
\<close>

definition processNode :: "GraphProcessor \<Rightarrow> GraphNode \<Rightarrow> string set \<times> ModelGraph \<Rightarrow> string set \<times> ModelGraph" where
  "processNode p graphNode st =
     (let seenGroups = fst st; modelGraph = snd st;
          group = groupIdForNode p graphNode;
          assetNode = new_node ASSET_NODE (gn_id graphNode) 1 (group @ ''/'' @ gn_id graphNode);
          mg1 = push_node assetNode modelGraph
      in if \<not> hideInLayout assetNode \<and> \<not> flattenLayers p then
           (if group \<notin> seenGroups then
              (insert group seenGroups, push_node (new_node GROUP_NODE group 0 group) mg1)
            else (seenGroups, mg1))
         else (seenGroups, mg1))"

definition processNodes :: "GraphProcessor \<Rightarrow> ModelGraph \<Rightarrow> ModelGraph" where
  "processNodes p modelGraph =
     snd (fold (processNode p) (gd_nodes (graph p)) ({}, modelGraph))"

text \<open>
  \<open>processEdgeRelationships\<close>. \<open>find P es = None\<close> is \<open>es.find(P) == null\<close>. The inner loop
  body first writes the target's incoming list, then the source's outgoing list; for a
  self loop both are the same object, which the store handles.
\<close>

definition push_incoming :: "Edge \<Rightarrow> ModelNode \<Rightarrow> ModelNode" where
  "push_incoming e n =
     (let es = ins n
      in if find (\<lambda>edge. sourceNodeId edge = sourceNodeId e) es = None
         then n\<lparr>incomingEdges := Some (es @ [e])\<rparr>
         else n\<lparr>incomingEdges := Some es\<rparr>)"

definition push_outgoing :: "Edge \<Rightarrow> ModelNode \<Rightarrow> ModelNode" where
  "push_outgoing e n =
     (let es = outs n
      in if find (\<lambda>edge. targetNodeId edge = targetNodeId e) es = None
         then n\<lparr>outgoingEdges := Some (es @ [e])\<rparr>
         else n\<lparr>outgoingEdges := Some es\<rparr>)"

definition processIncomingEdge :: "GraphNode \<Rightarrow> nat \<Rightarrow> string \<Rightarrow> ModelGraph \<Rightarrow> ModelGraph" where
  "processIncomingEdge graphNode node srcId mg =
     (case nodesById mg srcId of
        None \<Rightarrow> mg
      | Some sourceNode \<Rightarrow>
          (let incomingEdge = \<lparr>sourceNodeId = srcId, targetNodeId = gn_id graphNode\<rparr>;
               mg1 = upd_node node (push_incoming incomingEdge) mg;
               outgoingEdge = \<lparr>sourceNodeId = sourceNodeId incomingEdge,
                               targetNodeId = node_id (node_at mg1 node)\<rparr>
           in upd_node sourceNode (push_outgoing outgoingEdge) mg1))"

definition processEdgesOf :: "GraphProcessor \<Rightarrow> GraphNode \<Rightarrow> ModelGraph \<Rightarrow> ModelGraph" where
  "processEdgesOf p graphNode mg =
     (case nodesById mg (gn_id graphNode) of
        None \<Rightarrow> mg
      | Some node \<Rightarrow>
          fold (processIncomingEdge graphNode node)
            (case upstream (graph p) (gn_id graphNode) of None \<Rightarrow> [] | Some ks \<Rightarrow> ks) mg)"

definition processEdgeRelationships :: "GraphProcessor \<Rightarrow> ModelGraph \<Rightarrow> ModelGraph" where
  "processEdgeRelationships p modelGraph = fold (processEdgesOf p) (gd_nodes (graph p)) modelGraph"


section \<open>GraphProcessor: layout connections\<close>

text \<open>
  \<open>generateLayoutGraphConnections\<close>. The filter callback reads \<open>hideInLayout\<close> of
  \<open>nodesById[edge.sourceNodeId]\<close>, a \<open>TypeError\<close> when the source is not indexed.
\<close>

fun filterIncomingEdges :: "ModelGraph \<Rightarrow> Edge list \<Rightarrow> error + Edge list" where
  "filterIncomingEdges mg [] = Inr []"
| "filterIncomingEdges mg (edge # es) =
     (case lookup mg (sourceNodeId edge) of
        None \<Rightarrow> Inl TypeError
      | Some src \<Rightarrow>
          (case filterIncomingEdges mg es of
             Inl e \<Rightarrow> Inl e
           | Inr r \<Rightarrow> Inr (if \<not> hideInLayout src then edge # r else r)))"

fun assetNodesWithoutIncomingEdges :: "ModelGraph \<Rightarrow> nat list \<Rightarrow> error + nat list" where
  "assetNodesWithoutIncomingEdges mg [] = Inr []"
| "assetNodesWithoutIncomingEdges mg (r # rs) =
     (let node = node_at mg r in
      if \<not> isAssetNode (Some node) \<or> hideInLayout node then assetNodesWithoutIncomingEdges mg rs
      else
        (case filterIncomingEdges mg (ins node) of
           Inl e \<Rightarrow> Inl e
         | Inr filteredIncomingEdges \<Rightarrow>
             (case assetNodesWithoutIncomingEdges mg rs of
                Inl e \<Rightarrow> Inl e
              | Inr found \<Rightarrow>
                  Inr (if length filteredIncomingEdges = 0 then r # found else found))))"

text \<open>
  The breadth-first loop. The queue holds references, or \<open>undefined\<close> for a target id
  that is not indexed; the loop returns \<open>seenNodeIds\<close>. A reference always denotes an
  object of the store, which is the guard \<open>r < length (nodes mg)\<close>. Each round either
  shortens the queue or marks an unseen id of the store as seen, so the loop ends.
\<close>

function bfs :: "ModelGraph \<Rightarrow> nat option list \<Rightarrow> string set \<Rightarrow> string set" where
  "bfs mg [] seenNodeIds = seenNodeIds"
| "bfs mg (None # queue) seenNodeIds = bfs mg queue seenNodeIds"
| "bfs mg (Some r # queue) seenNodeIds =
     (if r < length (nodes mg) \<and> \<not> hideInLayout (node_at mg r)
         \<and> node_id (node_at mg r) \<notin> seenNodeIds
      then bfs mg (queue @ map (\<lambda>edge. nodesById mg (targetNodeId edge)) (outs (node_at mg r)))
             (insert (node_id (node_at mg r)) seenNodeIds)
      else bfs mg queue seenNodeIds)"
  by pat_completeness auto
termination
proof (relation "measures [\<lambda>(mg, queue, seen). card (node_id ` set (nodes mg) - seen),
                            \<lambda>(mg, queue, seen). length queue]", goal_cases)
  case 1
  then show ?case by simp
next
  case (2 mg queue seenNodeIds)
  then show ?case by simp
next
  case (3 mg r queue seenNodeIds)
  then have "node_id (node_at mg r) \<in> node_id ` set (nodes mg) - seenNodeIds"
    by (auto simp: node_at_def)
  then have "card (node_id ` set (nodes mg) - insert (node_id (node_at mg r)) seenNodeIds)
             < card (node_id ` set (nodes mg) - seenNodeIds)"
    by (intro psubset_card_mono) auto
  then show ?case by simp
next
  case (4 mg r queue seenNodeIds)
  then show ?case by simp
qed

definition generateLayoutGraphConnections :: "ModelGraph \<Rightarrow> error + ModelGraph" where
  "generateLayoutGraphConnections modelGraph =
     (let mg = modelGraph\<lparr>layoutGraphEdges := Map.empty\<rparr> in
      case assetNodesWithoutIncomingEdges mg [0..<length (nodes mg)] of
        Inl e \<Rightarrow> Inl e
      | Inr roots \<Rightarrow>
          (let seenNodeIds = bfs mg (map Some roots) {} in Inr mg))"

section \<open>GraphProcessor: splitting large groups\<close>

subsection \<open>Strings\<close>

text \<open>
  \<open>s.replace(pat, rep)\<close> with a string pattern replaces the first occurrence only;
  \<open>s.split('/')\<close>; and the decimal numerals of the template literals.
\<close>

fun replace_first :: "string \<Rightarrow> string \<Rightarrow> string \<Rightarrow> string" where
  "replace_first pat rep [] = (if pat = [] then rep else [])"
| "replace_first pat rep (c # cs) =
     (if take (length pat) (c # cs) = pat then rep @ drop (length pat) (c # cs)
      else c # replace_first pat rep cs)"

fun split_on :: "char \<Rightarrow> string \<Rightarrow> string list" where
  "split_on d [] = [[]]"
| "split_on d (c # cs) =
     (if c = d then [] # split_on d cs
      else (case split_on d cs of [] \<Rightarrow> [[c]] | x # xs \<Rightarrow> (c # x) # xs))"

definition namespace_level :: "string \<Rightarrow> nat" where
  "namespace_level ns = length (filter (\<lambda>c. c \<noteq> []) (split_on CHR ''/'' ns))"

definition digit :: "nat \<Rightarrow> char" where
  "digit n = ''0123456789'' ! n"

function show_nat :: "nat \<Rightarrow> string" where
  "show_nat n = (if n < 10 then [digit n] else show_nat (n div 10) @ [digit (n mod 10)])"
  by pat_completeness auto
termination
  by (relation "measure (\<lambda>n. n)") auto

definition index_of :: "'a list \<Rightarrow> 'a \<Rightarrow> nat option" where
  "index_of xs x = (if x \<in> set xs then Some (length (takeWhile (\<lambda>y. y \<noteq> x) xs)) else None)"

subsection \<open>The depth-first bucketing\<close>

record dfs_state =
  groups :: "nat list list"
  curGroup :: "nat list"
  visitedNodeIds :: "string set"

text \<open>
  The closure \<open>visit\<close>. \<open>pushVisited\<close> marks the id as visited, pushes the node onto
  \<open>curGroup\<close> and closes the bucket when it has reached the threshold. An id that is not
  indexed makes \<open>node\<close> undefined and the read of \<open>node.id\<close> a \<open>TypeError\<close>. The recursion is
  bounded by the fuel.
\<close>

definition pushVisited :: "GraphProcessor \<Rightarrow> string \<Rightarrow> nat \<Rightarrow> dfs_state \<Rightarrow> dfs_state" where
  "pushVisited p curNodeId node st =
     (let pushed = curGroup st @ [node] in
      if int (length pushed) = groupNodeChildrenCountThreshold p
      then st\<lparr>groups := groups st @ [pushed], curGroup := [],
              visitedNodeIds := insert curNodeId (visitedNodeIds st)\<rparr>
      else st\<lparr>curGroup := pushed,
              visitedNodeIds := insert curNodeId (visitedNodeIds st)\<rparr>)"

fun visit :: "nat \<Rightarrow> GraphProcessor \<Rightarrow> LayoutGraph \<Rightarrow> ModelGraph \<Rightarrow> string \<Rightarrow> dfs_state \<Rightarrow> dfs_state result" where
  "visit 0 p layoutGraph mg curNodeId st = None"
| "visit (Suc n) p layoutGraph mg curNodeId st =
     (if curNodeId \<in> visitedNodeIds st then Some (Inr st)
      else
        (case nodesById mg curNodeId of
           None \<Rightarrow> Some (Inl TypeError)
         | Some node \<Rightarrow>
             foldM (\<lambda>childId. visit n p layoutGraph mg childId)
               (case lg_outgoingEdges layoutGraph (node_id (node_at mg node)) of
                  None \<Rightarrow> [] | Some cs \<Rightarrow> cs)
               (pushVisited p curNodeId node st)))"

definition visitRoot :: "nat \<Rightarrow> GraphProcessor \<Rightarrow> LayoutGraph \<Rightarrow> ModelGraph \<Rightarrow> nat option \<Rightarrow> dfs_state \<Rightarrow> dfs_state result" where
  "visitRoot n p layoutGraph mg rootNode st =
     (case rootNode of
        None \<Rightarrow> Some (Inl TypeError)
      | Some r \<Rightarrow> visit n p layoutGraph mg (node_id (node_at mg r)) st)"

definition bucketGroups :: "nat \<Rightarrow> GraphProcessor \<Rightarrow> LayoutGraph \<Rightarrow> ModelGraph \<Rightarrow> nat list list result" where
  "bucketGroups n p layoutGraph mg =
     (let layoutRoots = map (nodesById mg)
                          (filter (\<lambda>nodeId. lg_incomingEdges layoutGraph nodeId = None)
                             (lg_nodes layoutGraph))
      in case foldM (visitRoot n p layoutGraph mg) layoutRoots
                \<lparr>groups = [], curGroup = [], visitedNodeIds = {}\<rparr> of
           None \<Rightarrow> None
         | Some (Inl e) \<Rightarrow> Some (Inl e)
         | Some (Inr st) \<Rightarrow>
             Some (Inr (if int (length (curGroup st)) < groupNodeChildrenCountThreshold p
                           \<and> length (curGroup st) > 0
                        then groups st @ [curGroup st] else groups st)))"

subsection \<open>Renaming a bucket's subtree\<close>

text \<open>
  The closure \<open>updateNamespace\<close>, for the section whose namespace part is
  \<open>newNamespacePart\<close> under the group \<open>curGroupNode\<close>. The \<open>for ... of\<close> over
  \<open>node.childrenIds\<close> reads the array as it is at each step (a renamed child rewrites
  its slot while the loop runs; the length never changes), so the loop runs over the
  positions and reads the store each time. The recursion is bounded by the fuel.
\<close>

definition renameInParent :: "string \<Rightarrow> string \<Rightarrow> ModelNode \<Rightarrow> ModelNode" where
  "renameInParent oldNodeId newNodeId nsParent =
     (case index_of (children_of nsParent) oldNodeId of
        None \<Rightarrow> nsParent
      | Some i \<Rightarrow> nsParent\<lparr>childrenIds := Some ((children_of nsParent)[i := newNodeId])\<rparr>)"

text \<open>
  The first half of \<open>updateNamespace\<close>: the new namespace and level of \<open>node\<close>.
\<close>

definition setNamespace :: "string \<Rightarrow> nat option \<Rightarrow> nat \<Rightarrow> ModelGraph \<Rightarrow> ModelGraph" where
  "setNamespace newNamespacePart curGroupNode r mg =
     (let node = node_at mg r;
          oldNamespace = namespace node;
          ns = (if oldNamespace = [] then newNamespacePart
                else if curGroupNode = None then newNamespacePart @ ''/'' @ oldNamespace
                else replace_first ''___group___'' []
                       (case parentId node of None \<Rightarrow> [] | Some pid \<Rightarrow> pid))
      in upd_node r (\<lambda>x. x\<lparr>namespace := ns, level := namespace_level ns\<rparr>) mg)"

text \<open>
  For a group node: the new id, the move of its entry in \<open>nodesById\<close>, and the slot in its
  parent's \<open>childrenIds\<close>. \<open>if (node.parentId)\<close> is false for \<open>undefined\<close> and for the empty
  string; a parent id that is not indexed makes \<open>nsParent\<close> undefined and the read of
  \<open>nsParent.childrenIds\<close> a \<open>TypeError\<close>.
\<close>

definition regenerateId :: "nat \<Rightarrow> ModelGraph \<Rightarrow> error + ModelGraph" where
  "regenerateId r mg =
     (let node = node_at mg r;
          oldNodeId = node_id node;
          newNodeId = namespace node @ ''/'' @ oldNodeId @ ''___group___'';
          mg1 = (upd_node r (\<lambda>x. x\<lparr>node_id := newNodeId\<rparr>) mg)
                  \<lparr>nodesById := ((nodesById mg)(oldNodeId := None))(newNodeId \<mapsto> r)\<rparr>
      in case parentId node of
           None \<Rightarrow> Inr mg1
         | Some pid \<Rightarrow>
             if pid = [] then Inr mg1
             else (case nodesById mg1 pid of
                     None \<Rightarrow> Inl TypeError
                   | Some nsParent \<Rightarrow>
                       Inr (upd_node nsParent (renameInParent oldNodeId newNodeId) mg1)))"

fun updateNamespace :: "nat \<Rightarrow> string \<Rightarrow> nat option \<Rightarrow> nat \<Rightarrow> ModelGraph \<Rightarrow> ModelGraph result" where
  "updateNamespace 0 newNamespacePart curGroupNode r mg = None"
| "updateNamespace (Suc n) newNamespacePart curGroupNode r mg =
     (let mg1 = setNamespace newNamespacePart curGroupNode r mg
      in if isGroupNode (Some (node_at mg1 r)) then
           (case regenerateId r mg1 of
              Inl e \<Rightarrow> Some (Inl e)
            | Inr mg2 \<Rightarrow>
                foldM (\<lambda>i g.
                         if i < length (children_of (node_at g r)) then
                           (case nodesById g (children_of (node_at g r) ! i) of
                              None \<Rightarrow> Some (Inr g)
                            | Some childNode \<Rightarrow>
                                updateNamespace n newNamespacePart curGroupNode childNode
                                  (upd_node childNode
                                     (\<lambda>x. x\<lparr>parentId := Some (node_id (node_at g r))\<rparr>) g))
                         else Some (Inr g))
                  [0..<length (children_of (node_at mg2 r))] mg2)
         else Some (Inr mg1))"

subsection \<open>One section per bucket\<close>

text \<open>
  The body of the loop over \<open>groups\<close>: \<open>members\<close> is the bucket \<open>groups[groupIndex]\<close> (the
  source's local \<open>nodes\<close>), the state is the model graph and the list \<open>newGroupNodes\<close>.
  \<open>rootNodes.indexOf(node)\<close> compares object identities, so \<open>splice\<close> removes the first
  occurrence of the reference.
\<close>

definition sectionId :: "nat \<Rightarrow> nat \<Rightarrow> string" where
  "sectionId groupIndex groupsLength =
     ''section_'' @ show_nat (groupIndex + 1) @ ''_of_'' @ show_nat groupsLength @ ''___group___''"

definition makeSection :: "nat \<Rightarrow> nat option \<Rightarrow> nat \<Rightarrow> nat \<times> nat list \<Rightarrow> ModelGraph \<times> nat list \<Rightarrow> (ModelGraph \<times> nat list) result" where
  "makeSection n curGroupNode groupsLength bucket st =
     (let groupIndex = fst bucket; members = snd bucket;
          mg = fst st; newGroupNodes = snd st;
          newGroupNodeNamespace =
            (case curGroupNode of
               None \<Rightarrow> []
             | Some c \<Rightarrow> namespace (node_at mg c) @ ''/'' @ node_id (node_at mg c));
          newGroupNodeId = sectionId groupIndex groupsLength;
          newGroupNode = (new_node GROUP_NODE newGroupNodeId 0 newGroupNodeNamespace)
            \<lparr>parentId := map_option (\<lambda>c. node_id (node_at mg c)) curGroupNode,
             childrenIds := Some (map (\<lambda>r. node_id (node_at mg r)) members),
             sectionContainer := True\<rparr>;
          newRef = length (nodes mg);
          mg1 = (push_node newGroupNode mg)
            \<lparr>artificialGroupNodeIds :=
               Some ((case artificialGroupNodeIds mg of None \<Rightarrow> [] | Some ids \<Rightarrow> ids)
                     @ [newGroupNodeId])\<rparr>;
          mg2 = fold (\<lambda>r g. upd_node r (\<lambda>x. x\<lparr>parentId := Some (node_id (node_at g newRef))\<rparr>) g)
                  members mg1;
          newNamespacePart = replace_first ''___group___'' [] newGroupNodeId
      in case foldM (updateNamespace n newNamespacePart curGroupNode) members mg2 of
           None \<Rightarrow> None
         | Some (Inl e) \<Rightarrow> Some (Inl e)
         | Some (Inr mg3) \<Rightarrow>
             (let mg4 =
                (if curGroupNode = None then
                   (let removed = fold remove1 members (rootNodes mg3)
                    in mg3\<lparr>rootNodes :=
                         (if namespace (node_at mg3 newRef) = [] then removed @ [newRef]
                          else removed)\<rparr>)
                 else mg3)
              in Some (Inr (mg4, newGroupNodes @ [newRef]))))"

subsection \<open>The breadth-first pass over the groups\<close>

text \<open>
  The split branch for one queue entry: returns the model graph and the new value of
  \<open>children\<close> (the assignment \<open>children = newGroupNodes\<close> stands inside the loop over the
  buckets, so with no bucket \<open>children\<close> keeps its value).
\<close>

definition splitGroup :: "nat \<Rightarrow> GraphProcessor \<Rightarrow> nat option \<Rightarrow> nat option list \<Rightarrow> ModelGraph \<Rightarrow> (ModelGraph \<times> nat option list) result" where
  "splitGroup n p curGroupNode children mg =
     (let layoutGraph = getLayoutGraph p
            (case curGroupNode of None \<Rightarrow> [] | Some c \<Rightarrow> node_id (node_at mg c))
            children mg (testMode p) True
      in case bucketGroups n p layoutGraph mg of
           None \<Rightarrow> None
         | Some (Inl e) \<Rightarrow> Some (Inl e)
         | Some (Inr buckets) \<Rightarrow>
             (case foldM (makeSection n curGroupNode (length buckets))
                     (zip [0..<length buckets] buckets) (mg, []) of
                None \<Rightarrow> None
              | Some (Inl e) \<Rightarrow> Some (Inl e)
              | Some (Inr (mg1, newGroupNodes)) \<Rightarrow>
                  Some (Inr
                    ((case curGroupNode of
                        None \<Rightarrow> mg1
                      | Some c \<Rightarrow>
                          upd_node c (\<lambda>x. x\<lparr>childrenIds :=
                             Some (map (\<lambda>r. node_id (node_at mg1 r)) newGroupNodes)\<rparr>) mg1),
                     (if buckets = [] then children else map Some newGroupNodes)))))"

definition childrenOfScope :: "ModelGraph \<Rightarrow> nat option \<Rightarrow> nat option list" where
  "childrenOfScope mg curGroupNode =
     (case curGroupNode of
        None \<Rightarrow> map Some (rootNodes mg)
      | Some c \<Rightarrow> map (nodesById mg) (children_of (node_at mg c)))"

definition groupChildren :: "ModelGraph \<Rightarrow> nat option list \<Rightarrow> nat option list" where
  "groupChildren mg children =
     filter (\<lambda>child. isGroupNode (map_option (node_at mg) child)) children"

text \<open>
  The \<open>while (queue.length > 0)\<close> loop; a queue entry is a group node or \<open>undefined\<close> for
  the root scope. The state carries \<open>hasLargeGroupNodes\<close>. Each round takes one unit of
  fuel.
\<close>

fun splitLoop :: "nat \<Rightarrow> GraphProcessor \<Rightarrow> nat option list \<Rightarrow> bool \<Rightarrow> ModelGraph \<Rightarrow> (bool \<times> ModelGraph) result" where
  "splitLoop n p [] hasLargeGroupNodes mg = Some (Inr (hasLargeGroupNodes, mg))"
| "splitLoop 0 p (curGroupNode # queue) hasLargeGroupNodes mg = None"
| "splitLoop (Suc n) p (curGroupNode # queue) hasLargeGroupNodes mg =
     (let children = childrenOfScope mg curGroupNode in
      if int (length children) > groupNodeChildrenCountThreshold p then
        (case splitGroup n p curGroupNode children mg of
           None \<Rightarrow> None
         | Some (Inl e) \<Rightarrow> Some (Inl e)
         | Some (Inr (mg1, children1)) \<Rightarrow>
             splitLoop n p (queue @ groupChildren mg1 children1) True mg1)
      else splitLoop n p (queue @ groupChildren mg children) hasLargeGroupNodes mg)"

definition splitLargeGroupNodes :: "nat \<Rightarrow> GraphProcessor \<Rightarrow> ModelGraph \<Rightarrow> ModelGraph result" where
  "splitLargeGroupNodes n p modelGraph =
     (case splitLoop n p [None] False modelGraph of
        None \<Rightarrow> None
      | Some (Inl e) \<Rightarrow> Some (Inl e)
      | Some (Inr (hasLargeGroupNodes, mg)) \<Rightarrow>
          (if hasLargeGroupNodes then
             (case generateLayoutGraphConnections mg of
                Inl e \<Rightarrow> Some (Inl e)
              | Inr mg1 \<Rightarrow> Some (Inr mg1))
           else Some (Inr mg)))"

section \<open>GraphProcessor: descendants and counts\<close>

text \<open>
  \<open>gatherDescendants\<close> pushes onto the caller's array \<open>descendants\<close>; the model returns the
  extended list of references. A child id that is not indexed is \<open>undefined\<close>, for which
  both tests answer false. The recursion is bounded by the fuel.
\<close>

fun gatherDescendants :: "nat \<Rightarrow> ModelGraph \<Rightarrow> nat \<Rightarrow> nat list \<Rightarrow> nat list result" where
  "gatherDescendants 0 mg curRoot descendants = None"
| "gatherDescendants (Suc n) mg curRoot descendants =
     foldM (\<lambda>childId ds.
              (case nodesById mg childId of
                 None \<Rightarrow> Some (Inr ds)
               | Some child \<Rightarrow>
                   (let ds1 = (if isGroupNode (Some (node_at mg child))
                                  \<or> (isAssetNode (Some (node_at mg child))
                                      \<and> \<not> hideInLayout (node_at mg child))
                               then ds @ [child] else ds)
                    in if isGroupNode (Some (node_at mg child))
                       then gatherDescendants n mg child ds1
                       else Some (Inr ds1))))
       (children_of (node_at mg curRoot)) descendants"

record counts_state =
  cs_graph :: ModelGraph
  minAssetNodeCount :: JSNumber
  maxAssetNodeCount :: JSNumber

definition populateNode :: "nat \<Rightarrow> nat \<Rightarrow> counts_state \<Rightarrow> counts_state result" where
  "populateNode n r st =
     (let mg = cs_graph st in
      if isGroupNode (Some (node_at mg r)) then
        (case gatherDescendants n mg r [] of
           None \<Rightarrow> None
         | Some (Inl e) \<Rightarrow> Some (Inl e)
         | Some (Inr descendants) \<Rightarrow>
             (let mg1 = upd_node r (\<lambda>x. x\<lparr>
                    descendantsNodeIds := Some (map (\<lambda>d. node_id (node_at mg d)) descendants),
                    descendantsAssetNodeIds :=
                      Some (map (\<lambda>d. node_id (node_at mg d))
                              (filter (\<lambda>d. nodeType (node_at mg d) = ASSET_NODE) descendants))\<rparr>) mg;
                  assetNodeCount = Finite (int (length
                    (case descendantsAssetNodeIds (node_at mg1 r) of None \<Rightarrow> [] | Some ids \<Rightarrow> ids)))
              in Some (Inr \<lparr>cs_graph = mg1,
                   minAssetNodeCount = Math_min assetNodeCount (minAssetNodeCount st),
                   maxAssetNodeCount = Math_max assetNodeCount (maxAssetNodeCount st)\<rparr>)))
      else Some (Inr st))"

definition populateDescendantsAndCounts :: "nat \<Rightarrow> ModelGraph \<Rightarrow> ModelGraph result" where
  "populateDescendantsAndCounts n modelGraph =
     (case foldM (populateNode n) [0..<length (nodes modelGraph)]
             \<lparr>cs_graph = modelGraph, minAssetNodeCount = MAX_VALUE,
              maxAssetNodeCount = NEGATIVE_INFINITY\<rparr> of
        None \<Rightarrow> None
      | Some (Inl e) \<Rightarrow> Some (Inl e)
      | Some (Inr st) \<Rightarrow>
          Some (Inr ((cs_graph st)\<lparr>minDescendantAssetNodeCount := minAssetNodeCount st,
                                   maxDescendantAssetNodeCount := maxAssetNodeCount st\<rparr>)))"

section \<open>GraphProcessor.process\<close>

text \<open>
  The pipeline. The three progress notifications are posted by the caller's model
  (\<open>handleProcessGraph\<close> below); the fuel bounds the splitter and the descendant walk.
\<close>

definition process :: "nat \<Rightarrow> GraphProcessor \<Rightarrow> ModelGraph result" where
  "process n p =
     (let modelGraph = processEdgeRelationships p (processNodes p createEmptyModelGraph) in
      case generateLayoutGraphConnections modelGraph of
        Inl e \<Rightarrow> Some (Inl e)
      | Inr mg1 \<Rightarrow>
          (case splitLargeGroupNodes n p mg1 of
             None \<Rightarrow> None
           | Some (Inl e) \<Rightarrow> Some (Inl e)
           | Some (Inr mg2) \<Rightarrow> populateDescendantsAndCounts n mg2))"

section \<open>The layout graph of a scope\<close>

text \<open>
  Modelled from the spec: \<open>getLayoutGraph\<close> is not among the sources. The spec says the
  splitter "build[s] a layout-connectivity subgraph restricted to these children" and
  that \<open>layoutGraphEdges\<close> maps "a scope id to the direct successor relation among the
  nodes visible in that scope": the nodes are the children's ids, and the edges are the
  scope's entries of \<open>layoutGraphEdges\<close> between two of them.
\<close>

definition getLayoutGraph_spec :: "string \<Rightarrow> nat option list \<Rightarrow> ModelGraph \<Rightarrow> bool \<Rightarrow> bool \<Rightarrow> LayoutGraph" where
  "getLayoutGraph_spec rootId children mg tm fakeSize =
     (let ids = map (\<lambda>r. node_id (node_at mg r)) (concat (map (\<lambda>c. case c of None \<Rightarrow> [] | Some r \<Rightarrow> [r]) children));
          es = (case layoutGraphEdges mg rootId of None \<Rightarrow> [] | Some l \<Rightarrow> l);
          pairs = concat (map (\<lambda>(a, bs). map (\<lambda>b. (a, b)) bs) es);
          kept = filter (\<lambda>(a, b). a \<in> set ids \<and> b \<in> set ids) pairs
      in \<lparr>lg_nodes = ids,
          lg_incomingEdges = (\<lambda>k. if k \<in> snd ` set kept
                                 then Some (map fst (filter (\<lambda>(a, b). b = k) kept)) else None),
          lg_outgoingEdges = (\<lambda>k. if k \<in> fst ` set kept
                                 then Some (map snd (filter (\<lambda>(a, b). a = k) kept)) else None)\<rparr>)"

section \<open>The worker: cache and message listener\<close>

text \<open>
  The second source file is the worker's message listener. \<open>GraphExpander\<close>,
  \<open>GraphLayout\<close> and \<open>getDeepestExpandedGroupNodeIds\<close> are imports the sources do not
  contain (the spec leaves them out of scope as collaborators), and so is the constant
  \<open>DEFAULT_GROUP_NODE_CHILDREN_COUNT_THRESHOLD\<close>: they are parameters, collected in
  \<open>Environment\<close>. A collaborator takes the model graph and returns it as it left it;
  \<open>layout\<close> also returns the text of what it threw, if it threw.
\<close>

record Environment =
  DEFAULT_GROUP_NODE_CHILDREN_COUNT_THRESHOLD :: int
  env_groupIdForNode :: "GraphNode \<Rightarrow> string"
  env_getLayoutGraph :: "string \<Rightarrow> nat option list \<Rightarrow> ModelGraph \<Rightarrow> bool \<Rightarrow> bool \<Rightarrow> LayoutGraph"
  layout :: "ModelGraph \<Rightarrow> string option \<times> ModelGraph"
  reLayoutGraph :: "ModelGraph \<Rightarrow> string list option \<Rightarrow> bool option \<Rightarrow> ModelGraph"
  expandAllGroups :: "ModelGraph \<Rightarrow> string list \<times> ModelGraph"
  collapseGroupNode :: "ModelGraph \<Rightarrow> string \<Rightarrow> string list \<times> ModelGraph"
  collapseAllGroup :: "ModelGraph \<Rightarrow> string list \<times> ModelGraph"
  getDeepestExpandedGroupNodeIds :: "nat option \<Rightarrow> ModelGraph \<Rightarrow> string list"

datatype ProcessingLabel =
  PROCESSING_NODES_AND_EDGES | PROCESSING_LAYOUT_DATA | SPLITTING_LARGE_LAYERS
  | LAYING_OUT_ROOT_LAYER

text \<open>
  The requests, with the fields the listener reads, in the order of the comments; every
  other event type takes the \<open>default\<close> branch.
\<close>

datatype WorkerEvent =
    PROCESS_GRAPH_REQ GraphData string "bool option"
      \<comment> \<open>graph, graphId, initialLayout\<close>
  | EXPAND_OR_COLLAPSE_GROUP_NODE_REQ string "string option" bool string "bool option"
      \<comment> \<open>modelGraphId, groupNodeId, expand, rendererId, all\<close>
  | RELAYOUT_GRAPH_REQ string "string list option" string string "bool option"
      \<comment> \<open>modelGraphId, targetDeepestGroupNodeIdsToExpand, selectedNodeId, rendererId,
          clearAllExpandStates\<close>
  | CLEANUP
  | OTHER_EVENT

text \<open>What the worker posts; \<open>postMessage\<close> copies the model graph as it is at that moment.\<close>

datatype Message =
    PROCESS_GRAPH_RESP ModelGraph string
      \<comment> \<open>modelGraph, graphId\<close>
  | EXPAND_OR_COLLAPSE_GROUP_NODE_RESP ModelGraph bool "string option" string "string list"
      \<comment> \<open>modelGraph, expanded, groupNodeId, rendererId, deepestExpandedGroupNodeIds\<close>
  | RELAYOUT_GRAPH_RESP ModelGraph string string "string list option"
      \<comment> \<open>modelGraph, selectedNodeId, rendererId, targetDeepestGroupNodeIdsToExpand\<close>
  | UPDATE_PROCESSING_PROGRESS string ProcessingLabel "string option"
      \<comment> \<open>graphId, label, error\<close>

text \<open>
  \<open>MODEL_GRAPHS_CACHE\<close> maps a key to a model graph object, and the handlers mutate that
  object in place; \<open>graphs\<close> is the store of the graph objects and the cache holds
  references into it.
\<close>

record Worker =
  graphs :: "ModelGraph list"
  MODEL_GRAPHS_CACHE :: "string \<rightharpoonup> nat"
  outbox :: "Message list"

definition getModelGraphKey :: "string \<Rightarrow> string \<Rightarrow> string" where
  "getModelGraphKey modelGraphId rendererId = modelGraphId @ ''___'' @ rendererId"

definition cacheModelGraph :: "nat \<Rightarrow> string \<Rightarrow> Worker \<Rightarrow> Worker" where
  "cacheModelGraph modelGraph rendererId w =
     w\<lparr>MODEL_GRAPHS_CACHE :=
         (MODEL_GRAPHS_CACHE w)
           (getModelGraphKey (graph_id (graphs w ! modelGraph)) rendererId \<mapsto> modelGraph)\<rparr>"

definition getCachedModelGraph :: "Worker \<Rightarrow> string \<Rightarrow> string \<Rightarrow> error + nat" where
  "getCachedModelGraph w modelGraphId rendererId =
     (case MODEL_GRAPHS_CACHE w (getModelGraphKey modelGraphId rendererId) of
        None \<Rightarrow> Inl CacheMiss
      | Some cachedModelGraph \<Rightarrow> Inr cachedModelGraph)"

text \<open>
  \<open>handleProcessGraph\<close> returns the model graph and the progress notifications in the
  order they are posted: three by \<open>process\<close>, one at the end.
\<close>

definition handleProcessGraph :: "nat \<Rightarrow> Environment \<Rightarrow> string \<Rightarrow> GraphData \<Rightarrow> bool option \<Rightarrow> (ModelGraph \<times> Message list) result" where
  "handleProcessGraph n env graphId g initialLayout =
     (let processor = \<lparr>paneId = graphId, graph = g,
             groupNodeChildrenCountThreshold = DEFAULT_GROUP_NODE_CHILDREN_COUNT_THRESHOLD env,
             testMode = False, flattenLayers = False,
             groupIdForNode = env_groupIdForNode env,
             getLayoutGraph = env_getLayoutGraph env\<rparr>
      in case process n processor of
           None \<Rightarrow> None
         | Some (Inl e) \<Rightarrow> Some (Inl e)
         | Some (Inr modelGraph) \<Rightarrow>
             (let error0 = (if nodesById modelGraph [] \<noteq> None
                            then Some ''Some nodes have empty strings as ids which will cause layout failures. See console for details.''
                            else None);
                  laid = (if error0 = None \<and> initialLayout = Some True
                          then (case layout env modelGraph of
                                  (None, mg1) \<Rightarrow> (None, mg1)
                                | (Some e, mg1) \<Rightarrow> (Some (''Failed to layout graph: '' @ e), mg1))
                          else (error0, modelGraph))
              in Some (Inr (snd laid,
                   [UPDATE_PROCESSING_PROGRESS graphId PROCESSING_NODES_AND_EDGES None,
                    UPDATE_PROCESSING_PROGRESS graphId PROCESSING_LAYOUT_DATA None,
                    UPDATE_PROCESSING_PROGRESS graphId SPLITTING_LARGE_LAYERS None,
                    UPDATE_PROCESSING_PROGRESS graphId LAYING_OUT_ROOT_LAYER (fst laid)]))))"

text \<open>
  The handlers return the model graph as they leave it together with the value they
  return or the error they throw, since a throw does not undo the writes before it.
\<close>

fun expandChain :: "nat \<Rightarrow> nat \<Rightarrow> ModelGraph \<Rightarrow> (nat \<times> ModelGraph) option" where
  "expandChain 0 curGroupNode mg = None"
| "expandChain (Suc n) curGroupNode mg =
     (case children_of (node_at mg curGroupNode) of
        [c] \<Rightarrow>
          (case nodesById mg c of
             None \<Rightarrow> Some (curGroupNode, mg)
           | Some child \<Rightarrow>
               if isGroupNode (Some (node_at mg child))
               then expandChain n child (upd_node child (\<lambda>x. x\<lparr>expanded := True\<rparr>) mg)
               else Some (curGroupNode, mg))
      | _ \<Rightarrow> Some (curGroupNode, mg))"

fun clearSizes :: "string list \<Rightarrow> ModelGraph \<Rightarrow> error option \<times> ModelGraph" where
  "clearSizes [] mg = (None, mg)"
| "clearSizes (nodeId # ids) mg =
     (case nodesById mg nodeId of
        None \<Rightarrow> (Some TypeError, mg)
      | Some node \<Rightarrow> clearSizes ids (upd_node node (\<lambda>x. x\<lparr>width := None, height := None\<rparr>) mg))"

definition expandDescendant :: "string \<Rightarrow> ModelGraph \<Rightarrow> ModelGraph" where
  "expandDescendant childNodeId mg =
     (case nodesById mg childNodeId of
        None \<Rightarrow> mg
      | Some node \<Rightarrow>
          if isGroupNode (Some (node_at mg node))
          then upd_node node (\<lambda>x. x\<lparr>expanded := True\<rparr>) mg else mg)"

definition handleExpandGroupNode :: "nat \<Rightarrow> Environment \<Rightarrow> ModelGraph \<Rightarrow> string option \<Rightarrow> bool \<Rightarrow> ((error + string list) \<times> ModelGraph) option" where
  "handleExpandGroupNode n env modelGraph groupNodeId all =
     (case groupNodeId of
        None \<Rightarrow> (case expandAllGroups env modelGraph of (ids, mg1) \<Rightarrow> Some (Inr ids, mg1))
      | Some gid \<Rightarrow>
          (let groupNode = nodesById modelGraph gid;
               first =
                 (case groupNode of
                    None \<Rightarrow> Some (Inr (None, modelGraph))
                  | Some gn \<Rightarrow>
                      if isGroupNode (Some (node_at modelGraph gn)) then
                        (case expandChain n gn (upd_node gn (\<lambda>x. x\<lparr>expanded := True\<rparr>) modelGraph) of
                           None \<Rightarrow> None
                         | Some (cur, mg1) \<Rightarrow>
                             (let ids = getDeepestExpandedGroupNodeIds env (Some cur) mg1;
                                  deepest = (if length ids = 0 then [node_id (node_at mg1 cur)] else ids)
                              in case clearSizes
                                        (case descendantsNodeIds (node_at mg1 cur) of
                                           None \<Rightarrow> [] | Some ds \<Rightarrow> ds) mg1 of
                                   (Some e, mg2) \<Rightarrow> Some (Inl (e, mg2))
                                 | (None, mg2) \<Rightarrow> Some (Inr (Some deepest, mg2))))
                      else Some (Inr (None, modelGraph)))
           in case first of
                None \<Rightarrow> None
              | Some (Inl (e, mg1)) \<Rightarrow> Some (Inl e, mg1)
              | Some (Inr (deepest, mg2)) \<Rightarrow>
                  (let second =
                     (if all then
                        (case groupNode of
                           None \<Rightarrow> Inl TypeError
                         | Some gn \<Rightarrow>
                             Inr (None,
                                  fold expandDescendant
                                    (case descendantsNodeIds (node_at mg2 gn) of
                                       None \<Rightarrow> [] | Some ds \<Rightarrow> ds) mg2))
                      else Inr (deepest, mg2))
                   in case second of
                        Inl e \<Rightarrow> Some (Inl e, mg2)
                      | Inr (deepest1, mg3) \<Rightarrow>
                          (let mg4 = reLayoutGraph env mg3 deepest1 None
                           in Some (Inr (getDeepestExpandedGroupNodeIds env None mg4), mg4)))))"

definition collapseDescendant :: "string \<Rightarrow> ModelGraph \<Rightarrow> ModelGraph" where
  "collapseDescendant childNodeId mg =
     (case nodesById mg childNodeId of
        None \<Rightarrow> mg
      | Some node \<Rightarrow>
          if isGroupNode (Some (node_at mg node))
          then (upd_node node (\<lambda>x. x\<lparr>expanded := False, width := None, height := None\<rparr>) mg)
                 \<lparr>edgesByGroupNodeIds := (edgesByGroupNodeIds mg)(node_id (node_at mg node) := None)\<rparr>
          else mg)"

definition handleCollapseGroupNode :: "Environment \<Rightarrow> ModelGraph \<Rightarrow> string option \<Rightarrow> bool \<Rightarrow> (error + string list) \<times> ModelGraph" where
  "handleCollapseGroupNode env modelGraph groupNodeId all =
     (case groupNodeId of
        None \<Rightarrow> (case collapseAllGroup env modelGraph of (ids, mg1) \<Rightarrow> (Inr ids, mg1))
      | Some gid \<Rightarrow>
          (let cleared =
             (if all then
                (case nodesById modelGraph gid of
                   None \<Rightarrow> Inl TypeError
                 | Some groupNode \<Rightarrow>
                     Inr (fold collapseDescendant
                            (case descendantsNodeIds (node_at modelGraph groupNode) of
                               None \<Rightarrow> [] | Some ds \<Rightarrow> ds) modelGraph))
              else Inr modelGraph)
           in case cleared of
                Inl e \<Rightarrow> (Inl e, modelGraph)
              | Inr mg1 \<Rightarrow> (case collapseGroupNode env mg1 gid of (ids, mg2) \<Rightarrow> (Inr ids, mg2))))"

definition handleReLayoutGraph :: "Environment \<Rightarrow> ModelGraph \<Rightarrow> string list option \<Rightarrow> bool option \<Rightarrow> ModelGraph" where
  "handleReLayoutGraph env modelGraph targetDeepestGroupNodeIdsToExpand clearAllExpandStates =
     reLayoutGraph env modelGraph targetDeepestGroupNodeIdsToExpand clearAllExpandStates"

text \<open>
  The listener. The result is the worker afterwards and the error an uncaught throw left
  in the event loop, if any; \<open>None\<close> is fuel run out. A throw leaves the cache and the
  outbox as they were, and the graph object as the handler left it.
\<close>

definition onMessage :: "nat \<Rightarrow> Environment \<Rightarrow> WorkerEvent \<Rightarrow> Worker \<Rightarrow> (error option \<times> Worker) option" where
  "onMessage n env workerEvent w =
     (case workerEvent of
        PROCESS_GRAPH_REQ g graphId initialLayout \<Rightarrow>
          (case handleProcessGraph n env graphId g initialLayout of
             None \<Rightarrow> None
           | Some (Inl e) \<Rightarrow> Some (Some e, w)
           | Some (Inr (modelGraph, progress)) \<Rightarrow>
               (let ref = length (graphs w);
                    w1 = cacheModelGraph ref graphId
                           (w\<lparr>graphs := graphs w @ [modelGraph], outbox := outbox w @ progress\<rparr>)
                in Some (None, w1\<lparr>outbox := outbox w1 @ [PROCESS_GRAPH_RESP modelGraph graphId]\<rparr>)))
      | EXPAND_OR_COLLAPSE_GROUP_NODE_REQ modelGraphId groupNodeId expand rendererId all \<Rightarrow>
          (case getCachedModelGraph w modelGraphId rendererId of
             Inl e \<Rightarrow> Some (Some e, w)
           | Inr ref \<Rightarrow>
               (case (if expand
                      then handleExpandGroupNode n env (graphs w ! ref) groupNodeId (all = Some True)
                      else Some (handleCollapseGroupNode env (graphs w ! ref) groupNodeId (all = Some True))) of
                  None \<Rightarrow> None
                | Some (Inl e, mg1) \<Rightarrow> Some (Some e, w\<lparr>graphs := (graphs w)[ref := mg1]\<rparr>)
                | Some (Inr deepestExpandedGroupNodeIds, mg1) \<Rightarrow>
                    (let w1 = cacheModelGraph ref rendererId (w\<lparr>graphs := (graphs w)[ref := mg1]\<rparr>)
                     in Some (None, w1\<lparr>outbox := outbox w1 @
                          [EXPAND_OR_COLLAPSE_GROUP_NODE_RESP mg1 expand groupNodeId rendererId
                             deepestExpandedGroupNodeIds]\<rparr>))))
      | RELAYOUT_GRAPH_REQ modelGraphId targets selectedNodeId rendererId clearAllExpandStates \<Rightarrow>
          (case getCachedModelGraph w modelGraphId rendererId of
             Inl e \<Rightarrow> Some (Some e, w)
           | Inr ref \<Rightarrow>
               (let mg1 = handleReLayoutGraph env (graphs w ! ref) targets clearAllExpandStates;
                    w1 = cacheModelGraph ref rendererId (w\<lparr>graphs := (graphs w)[ref := mg1]\<rparr>)
                in Some (None, w1\<lparr>outbox := outbox w1 @
                     [RELAYOUT_GRAPH_RESP mg1 selectedNodeId rendererId targets]\<rparr>)))
      | CLEANUP \<Rightarrow> Some (None, w\<lparr>MODEL_GRAPHS_CACHE := Map.empty\<rparr>)
      | OTHER_EVENT \<Rightarrow> Some (None, w))"

section \<open>Properties and example inputs\<close>

subsection \<open>Edges of the built graph\<close>

text \<open>
  An edge names its endpoints by id, and the code resolves an id through \<open>nodesById\<close>.
  Node \<open>a\<close> has an outgoing edge to node \<open>b\<close> when one of \<open>a\<close>'s outgoing edges has a
  target id that the index resolves to \<open>b\<close>; node \<open>b\<close> has an incoming edge from \<open>a\<close> when
  one of \<open>b\<close>'s incoming edges has a source id that the index resolves to \<open>a\<close>. \<open>built\<close>
  is the model graph after the builder's two passes.
\<close>

definition outgoing_to :: "ModelGraph \<Rightarrow> nat \<Rightarrow> nat \<Rightarrow> bool" where
  "outgoing_to mg a b = list_ex (\<lambda>e. nodesById mg (targetNodeId e) = Some b) (outs (node_at mg a))"
definition incoming_from :: "ModelGraph \<Rightarrow> nat \<Rightarrow> nat \<Rightarrow> bool" where
  "incoming_from mg b a = list_ex (\<lambda>e. nodesById mg (sourceNodeId e) = Some a) (ins (node_at mg b))"

definition built :: "GraphProcessor \<Rightarrow> ModelGraph" where
  "built p = processEdgeRelationships p (processNodes p createEmptyModelGraph)"

text \<open>
  The invariants of the edge pass: every indexed reference is in the store and leads to
  a node of that id (\<open>index_ok\<close>); every edge sits on the nodes its two ids resolve to, on
  both sides at once, and no list names a neighbour twice (\<open>edges_ok\<close>).
\<close>

definition index_ok :: "ModelGraph \<Rightarrow> bool" where
  "index_ok mg = (\<forall>k r. nodesById mg k = Some r \<longrightarrow> r < length (nodes mg) \<and> node_id (node_at mg r) = k)"

definition edges_ok :: "ModelGraph \<Rightarrow> bool" where
  "edges_ok mg = (\<forall>r < length (nodes mg).
      (\<forall>e \<in> set (ins (node_at mg r)).
          nodesById mg (targetNodeId e) = Some r \<and>
          (\<exists>s. nodesById mg (sourceNodeId e) = Some s \<and> e \<in> set (outs (node_at mg s)))) \<and>
      (\<forall>e \<in> set (outs (node_at mg r)).
          nodesById mg (sourceNodeId e) = Some r \<and>
          (\<exists>t. nodesById mg (targetNodeId e) = Some t \<and> e \<in> set (ins (node_at mg t)))) \<and>
      distinct (map sourceNodeId (ins (node_at mg r))) \<and>
      distinct (map targetNodeId (outs (node_at mg r))))"

definition scenario_abc :: GraphProcessor where
  "scenario_abc =
     \<lparr>paneId = ''pane'',
      graph = \<lparr>gd_nodes = [\<lparr>gn_id = ''a'', gn_definition = ''g''\<rparr>,
                           \<lparr>gn_id = ''b'', gn_definition = ''g''\<rparr>,
                           \<lparr>gn_id = ''c'', gn_definition = ''g''\<rparr>],
               upstream = [''b'' \<mapsto> [''a'', ''a'', ''zz''], ''c'' \<mapsto> [''b'']]\<rparr>,
      groupNodeChildrenCountThreshold = 10, testMode = False, flattenLayers = False,
      groupIdForNode = gn_definition, getLayoutGraph = getLayoutGraph_spec\<rparr>"

text \<open>What \<open>processNodes\<close> establishes: a consistent index and fresh nodes only.\<close>

definition fresh_node :: "ModelNode \<Rightarrow> bool" where
  "fresh_node n = (incomingEdges n = None \<and> outgoingEdges n = None \<and> parentId n = None
     \<and> childrenIds n = None \<and> \<not> hideInLayout n)"

definition nodes_ok :: "ModelGraph \<Rightarrow> bool" where
  "nodes_ok mg = (index_ok mg \<and> list_all fresh_node (nodes mg) \<and> rootNodes mg = []
      \<and> graph_id mg = ''<ROOT>'')"

subsection \<open>Descendant consistency\<close>

text \<open>
  Descendant consistency of one group node, for the statistics \<open>lo\<close> and \<open>hi\<close>: both
  descendant lists are set, every descendant asset id is a descendant id, and the number
  of descendant asset ids lies between \<open>lo\<close> and \<open>hi\<close>.
\<close>

definition descendants_consistent :: "JSNumber \<Rightarrow> JSNumber \<Rightarrow> ModelNode \<Rightarrow> bool" where
  "descendants_consistent lo hi n =
     (case (descendantsNodeIds n, descendantsAssetNodeIds n) of
        (Some dn, Some da) \<Rightarrow>
           set da \<subseteq> set dn \<and> js_le lo (Finite (int (length da))) \<and> js_le (Finite (int (length da))) hi
      | _ \<Rightarrow> False)"

definition counts_inv :: "nat \<Rightarrow> nat \<Rightarrow> counts_state \<Rightarrow> bool" where
  "counts_inv len k st =
     (length (nodes (cs_graph st)) = len \<and>
      (\<forall>r < k. isGroupNode (Some (node_at (cs_graph st) r)) \<longrightarrow>
          descendants_consistent (minAssetNodeCount st) (maxAssetNodeCount st) (node_at (cs_graph st) r)))"

definition descendant_consistency :: "ModelGraph \<Rightarrow> bool" where
  "descendant_consistency mg =
     list_all (\<lambda>n. isGroupNode (Some n) \<longrightarrow>
                 descendants_consistent (minDescendantAssetNodeCount mg) (maxDescendantAssetNodeCount mg) n)
       (nodes mg)"

subsection \<open>The graph that process returns\<close>

text \<open>Nodes as the builder leaves them: no parent, no children, not hidden, no descendants.\<close>

definition bare_node :: "ModelNode \<Rightarrow> bool" where
  "bare_node n = (parentId n = None \<and> childrenIds n = None \<and> \<not> hideInLayout n)"

definition bare_graph :: "ModelGraph \<Rightarrow> bool" where
  "bare_graph mg = (list_all bare_node (nodes mg) \<and> rootNodes mg = [] \<and> graph_id mg = ''<ROOT>'')"

text \<open>The aggregator on a graph without child lists.\<close>

definition childless :: "ModelGraph \<Rightarrow> bool" where
  "childless mg = list_all (\<lambda>n. childrenIds n = None) (nodes mg)"

definition no_descendants :: "ModelNode \<Rightarrow> bool" where
  "no_descendants n = (isGroupNode (Some n) \<longrightarrow>
      descendantsNodeIds n = Some [] \<and> descendantsAssetNodeIds n = Some [])"

definition childless_inv :: "ModelGraph \<Rightarrow> nat \<Rightarrow> counts_state \<Rightarrow> bool" where
  "childless_inv mg k st =
     (length (nodes (cs_graph st)) = length (nodes mg) \<and>
      rootNodes (cs_graph st) = rootNodes mg \<and> graph_id (cs_graph st) = graph_id mg \<and>
      nodesById (cs_graph st) = nodesById mg \<and>
      (\<forall>r < length (nodes mg).
          parentId (node_at (cs_graph st) r) = parentId (node_at mg r) \<and>
          childrenIds (node_at (cs_graph st) r) = None \<and>
          nodeType (node_at (cs_graph st) r) = nodeType (node_at mg r) \<and>
          node_id (node_at (cs_graph st) r) = node_id (node_at mg r) \<and>
          (r < k \<longrightarrow> no_descendants (node_at (cs_graph st) r))))"

text \<open>What process returns.\<close>

definition process_post :: "ModelGraph \<Rightarrow> bool" where
  "process_post mg = (rootNodes mg = [] \<and> graph_id mg = ''<ROOT>'' \<and>
     list_all (\<lambda>n. parentId n = None \<and> childrenIds n = None \<and> no_descendants n) (nodes mg))"

subsection \<open>Graphs without group nodes\<close>

definition returns :: "'a result \<Rightarrow> ('a \<Rightarrow> bool) \<Rightarrow> bool" where
  "returns r P = (case r of Some (Inr x) \<Rightarrow> P x | _ \<Rightarrow> False)"

definition scenario_flat :: GraphProcessor where
  "scenario_flat = scenario_abc\<lparr>flattenLayers := True\<rparr>"

definition nested_example :: ModelGraph where
  "nested_example =
     createEmptyModelGraph\<lparr>
       nodes := [(new_node GROUP_NODE ''g'' 0 ''g'')\<lparr>childrenIds := Some [''h'', ''a'', ''lost'']\<rparr>,
                 (new_node GROUP_NODE ''h'' 1 ''g/h'')\<lparr>parentId := Some ''g'', childrenIds := Some [''b'', ''c'', ''d'']\<rparr>,
                 (new_node ASSET_NODE ''a'' 1 ''g/a'')\<lparr>parentId := Some ''g''\<rparr>,
                 (new_node ASSET_NODE ''b'' 2 ''g/h/b'')\<lparr>parentId := Some ''h''\<rparr>,
                 (new_node ASSET_NODE ''c'' 2 ''g/h/c'')\<lparr>parentId := Some ''h''\<rparr>,
                 (new_node ASSET_NODE ''d'' 2 ''g/h/d'')\<lparr>parentId := Some ''h'', hideInLayout := True\<rparr>],
       nodesById := [''g'' \<mapsto> 0, ''h'' \<mapsto> 1, ''a'' \<mapsto> 2, ''b'' \<mapsto> 3, ''c'' \<mapsto> 4, ''d'' \<mapsto> 5],
       rootNodes := [0]\<rparr>"


subsection \<open>Requests to the worker\<close>

definition parentless :: "ModelGraph \<Rightarrow> nat list" where
  "parentless mg = filter (\<lambda>r. parentId (node_at mg r) = None) [0..<length (nodes mg)]"

definition plain_env :: Environment where
  "plain_env =
     \<lparr>DEFAULT_GROUP_NODE_CHILDREN_COUNT_THRESHOLD = 1000,
      env_groupIdForNode = gn_definition,
      env_getLayoutGraph = getLayoutGraph_spec,
      layout = (\<lambda>mg. (None, mg)),
      reLayoutGraph = (\<lambda>mg targets clear. mg),
      expandAllGroups = (\<lambda>mg. ([], mg)),
      collapseGroupNode = (\<lambda>mg gid. ([], mg)),
      collapseAllGroup = (\<lambda>mg. ([], mg)),
      getDeepestExpandedGroupNodeIds = (\<lambda>cur mg. [])\<rparr>"

definition empty_worker :: Worker where
  "empty_worker = \<lparr>graphs = [], MODEL_GRAPHS_CACHE = Map.empty, outbox = []\<rparr>"

definition request_g1 :: WorkerEvent where
  "request_g1 = PROCESS_GRAPH_REQ (graph scenario_abc) ''g1'' None"

definition collapse_unknown :: WorkerEvent where
  "collapse_unknown = EXPAND_OR_COLLAPSE_GROUP_NODE_REQ ''<ROOT>'' (Some ''nope'') False ''g1'' (Some True)"

definition expand_unknown :: WorkerEvent where
  "expand_unknown = EXPAND_OR_COLLAPSE_GROUP_NODE_REQ ''<ROOT>'' (Some ''nope'') True ''g1'' (Some True)"

subsection \<open>Sections and buckets\<close>

definition section_ok :: "int \<Rightarrow> ModelNode \<Rightarrow> bool" where
  "section_ok T x = (nodeType x = GROUP_NODE \<and> sectionContainer x
      \<and> 1 \<le> length (children_of x) \<and> int (length (children_of x)) \<le> T)"

definition refs_ok :: "ModelGraph \<Rightarrow> bool" where
  "refs_ok mg = ((\<forall>k r. nodesById mg k = Some r \<longrightarrow> r < length (nodes mg))
      \<and> (\<forall>r \<in> set (rootNodes mg). r < length (nodes mg)))"

text \<open>
  The invariant of a run of the splitter on a store that had \<open>n0\<close> nodes, the node at
  \<open>r\<close> with \<open>c0 r\<close> children: the store has \<open>L\<close> nodes and valid references, the nodes
  appended since are well-formed sections, and a node that started within the threshold
  has kept its number of children.
\<close>

definition sections_inv :: "nat \<Rightarrow> int \<Rightarrow> (nat \<Rightarrow> nat) \<Rightarrow> nat \<Rightarrow> ModelGraph \<Rightarrow> bool" where
  "sections_inv n0 T c0 L mg = (n0 \<le> L \<and> length (nodes mg) = L \<and> refs_ok mg
      \<and> (\<forall>r. n0 \<le> r \<and> r < L \<longrightarrow> section_ok T (node_at mg r))
      \<and> (\<forall>r < n0. int (c0 r) \<le> T \<longrightarrow> length (children_of (node_at mg r)) = c0 r))"

definition bucket_ok :: "int \<Rightarrow> nat \<Rightarrow> nat list \<Rightarrow> bool" where
  "bucket_ok T L b = (1 \<le> length b \<and> int (length b) \<le> T \<and> (\<forall>r \<in> set b. r < L))"

definition dfs_inv :: "int \<Rightarrow> nat \<Rightarrow> dfs_state \<Rightarrow> bool" where
  "dfs_inv T L st = ((\<forall>b \<in> set (groups st). bucket_ok T L b) \<and> (\<forall>r \<in> set (curGroup st). r < L))"

definition grown :: "nat \<Rightarrow> int \<Rightarrow> (nat \<Rightarrow> nat) \<Rightarrow> nat \<Rightarrow> ModelGraph \<times> nat list \<Rightarrow> bool" where
  "grown n0 T c0 L st = (\<exists>L'. L \<le> L' \<and> sections_inv n0 T c0 L' (fst st) \<and> (\<forall>r \<in> set (snd st). r < L'))"

definition refs_below :: "nat \<Rightarrow> nat option list \<Rightarrow> bool" where
  "refs_below L q = (\<forall>r. Some r \<in> set q \<longrightarrow> r < L)"

subsection \<open>Graphs within the threshold\<close>

definition bounded :: "int \<Rightarrow> ModelGraph \<Rightarrow> bool" where
  "bounded T mg = (int (length (rootNodes mg)) \<le> T
      \<and> list_all (\<lambda>x. int (length (children_of x)) \<le> T) (nodes mg))"

definition rank_of :: "(nat \<Rightarrow> nat) \<Rightarrow> nat option \<Rightarrow> nat" where
  "rank_of rk c = (case c of None \<Rightarrow> 0 | Some r \<Rightarrow> rk r)"

definition ranked :: "(nat \<Rightarrow> nat) \<Rightarrow> ModelGraph \<Rightarrow> bool" where
  "ranked rk mg =
     list_all (\<lambda>c. list_all (\<lambda>child. rank_of rk child < rk c)
                      (groupChildren mg (childrenOfScope mg (Some c))))
       [0..<length (nodes mg)]"

subsection \<open>Example graphs for the splitter\<close>

text \<open>
  Example graphs for the splitter: a group \<open>g\<close> at the root with seven, or three, asset
  children, and the scenario's processor with threshold 2.
\<close>

definition child_asset :: "string \<Rightarrow> ModelNode" where
  "child_asset i = (new_node ASSET_NODE i 1 (''g/'' @ i))\<lparr>parentId := Some ''g''\<rparr>"

definition seven_children :: ModelGraph where
  "seven_children =
     createEmptyModelGraph\<lparr>
       nodes := (new_node GROUP_NODE ''g'' 0 ''g'')
                   \<lparr>childrenIds := Some [''a1'', ''a2'', ''a3'', ''a4'', ''a5'', ''a6'', ''a7'']\<rparr>
                # map child_asset [''a1'', ''a2'', ''a3'', ''a4'', ''a5'', ''a6'', ''a7''],
       nodesById := [''g'' \<mapsto> 0, ''a1'' \<mapsto> 1, ''a2'' \<mapsto> 2, ''a3'' \<mapsto> 3, ''a4'' \<mapsto> 4,
                     ''a5'' \<mapsto> 5, ''a6'' \<mapsto> 6, ''a7'' \<mapsto> 7],
       rootNodes := [0]\<rparr>"

definition three_children :: ModelGraph where
  "three_children =
     createEmptyModelGraph\<lparr>
       nodes := (new_node GROUP_NODE ''g'' 0 ''g'')\<lparr>childrenIds := Some [''a1'', ''a2'', ''a3'']\<rparr>
                # map child_asset [''a1'', ''a2'', ''a3''],
       nodesById := [''g'' \<mapsto> 0, ''a1'' \<mapsto> 1, ''a2'' \<mapsto> 2, ''a3'' \<mapsto> 3],
       rootNodes := [0]\<rparr>"


definition split2 :: GraphProcessor where
  "split2 = scenario_abc\<lparr>groupNodeChildrenCountThreshold := 2\<rparr>"

definition example_rank :: "nat \<Rightarrow> nat" where
  "example_rank r = (if r = 0 then 2 else if 4 \<le> r then 1 else 0)"

subsection \<open>Acyclic hierarchies\<close>

definition keeps_shape :: "(ModelNode \<Rightarrow> ModelNode) \<Rightarrow> bool" where
  "keeps_shape f = (\<forall>x. childrenIds (f x) = childrenIds x \<and> nodeType (f x) = nodeType x)"

definition walkable :: "(nat \<Rightarrow> nat) \<Rightarrow> nat \<Rightarrow> nat \<Rightarrow> counts_state \<Rightarrow> bool" where
  "walkable rk L k st = (refs_ok (cs_graph st) \<and> ranked rk (cs_graph st)
      \<and> length (nodes (cs_graph st)) = L)"

definition nested_rank :: "nat \<Rightarrow> nat" where
  "nested_rank r = (if r = 0 then 2 else if r = 1 then 1 else 0)"

section \<open>Edge symmetry of the built graph\<close>

lemma find_None_iff2: "(find P xs = None) = (\<forall>x \<in> set xs. \<not> P x)"
  by (induction xs) auto

lemma ins_push_incoming:
  "ins (push_incoming e n) = (if \<exists>x \<in> set (ins n). sourceNodeId x = sourceNodeId e then ins n else ins n @ [e])"
  by (auto simp: push_incoming_def ins_def Let_def find_None_iff2 split: option.splits)

lemma outs_push_incoming: "outs (push_incoming e n) = outs n"
  by (simp add: push_incoming_def outs_def Let_def)

lemma id_push_incoming: "node_id (push_incoming e n) = node_id n"
  by (simp add: push_incoming_def Let_def)

lemma outs_push_outgoing:
  "outs (push_outgoing e n) = (if \<exists>x \<in> set (outs n). targetNodeId x = targetNodeId e then outs n else outs n @ [e])"
  by (auto simp: push_outgoing_def outs_def Let_def find_None_iff2 split: option.splits)

lemma ins_push_outgoing: "ins (push_outgoing e n) = ins n"
  by (simp add: push_outgoing_def ins_def Let_def)

lemma id_push_outgoing: "node_id (push_outgoing e n) = node_id n"
  by (simp add: push_outgoing_def Let_def)

lemma nodesById_upd_node: "nodesById (upd_node r f mg) = nodesById mg"
  by (simp add: upd_node_def)

lemma node_at_upd_node:
  "x < length (nodes mg) \<Longrightarrow> node_at (upd_node r f mg) x = (if x = r then f (node_at mg r) else node_at mg x)"
  by (simp add: node_at_def upd_node_def)

lemma length_upd_node: "length (nodes (upd_node r f mg)) = length (nodes mg)"
  by (simp add: upd_node_def)

lemma processIncomingEdge_None:
  "nodesById mg s = None \<Longrightarrow> processIncomingEdge g node s mg = mg"
  by (simp add: processIncomingEdge_def)

lemma processIncomingEdge_frame:
  "nodesById (processIncomingEdge g node s mg) = nodesById mg"
  "length (nodes (processIncomingEdge g node s mg)) = length (nodes mg)"
  by (auto simp: processIncomingEdge_def Let_def nodesById_upd_node length_upd_node split: option.splits)

lemma processIncomingEdge_id:
  "x < length (nodes mg) \<Longrightarrow> node_id (node_at (processIncomingEdge g node s mg) x) = node_id (node_at mg x)"
  by (auto simp: processIncomingEdge_def Let_def node_at_upd_node length_upd_node
        id_push_incoming id_push_outgoing split: option.splits)

lemma processIncomingEdge_ins:
  assumes "nodesById mg s = Some src" "x < length (nodes mg)"
  shows "ins (node_at (processIncomingEdge g node s mg) x) =
     (if x = node \<and> \<not> (\<exists>e \<in> set (ins (node_at mg node)). sourceNodeId e = s)
      then ins (node_at mg node) @ [\<lparr>sourceNodeId = s, targetNodeId = gn_id g\<rparr>]
      else ins (node_at mg x))"
  using assms
  by (auto simp: processIncomingEdge_def Let_def node_at_upd_node length_upd_node
        ins_push_incoming ins_push_outgoing)

lemma processIncomingEdge_outs:
  assumes "nodesById mg s = Some src" "x < length (nodes mg)" "node < length (nodes mg)"
  shows "outs (node_at (processIncomingEdge g node s mg) x) =
     (if x = src \<and> \<not> (\<exists>e \<in> set (outs (node_at mg src)). targetNodeId e = node_id (node_at mg node))
      then outs (node_at mg src) @ [\<lparr>sourceNodeId = s, targetNodeId = node_id (node_at mg node)\<rparr>]
      else outs (node_at mg x))"
  using assms
  by (auto simp: processIncomingEdge_def Let_def node_at_upd_node length_upd_node
        outs_push_incoming outs_push_outgoing id_push_incoming)

lemma index_ok_processIncomingEdge:
  "index_ok mg \<Longrightarrow> index_ok (processIncomingEdge g node s mg)"
  by (simp add: index_ok_def processIncomingEdge_frame processIncomingEdge_id)

lemma edges_ok_processIncomingEdge:
  assumes io: "index_ok mg" and eo: "edges_ok mg" and nd: "nodesById mg (gn_id g) = Some node"
  shows "edges_ok (processIncomingEdge g node s mg)"
proof (cases "nodesById mg s")
  case None
  then show ?thesis using eo by (simp add: processIncomingEdge_None)
next
  case (Some src)
  define e where "e = \<lparr>sourceNodeId = s, targetNodeId = gn_id g\<rparr>"
  define mg' where "mg' = processIncomingEdge g node s mg"
  have nlt: "node < length (nodes mg)" and nid: "node_id (node_at mg node) = gn_id g"
    using io nd by (auto simp: index_ok_def)
  have slt: "src < length (nodes mg)" and sid: "node_id (node_at mg src) = s"
    using io Some by (auto simp: index_ok_def)
  have E: "\<And>r e. r < length (nodes mg) \<Longrightarrow> e \<in> set (ins (node_at mg r)) \<Longrightarrow>
          nodesById mg (targetNodeId e) = Some r \<and>
          (\<exists>s. nodesById mg (sourceNodeId e) = Some s \<and> e \<in> set (outs (node_at mg s)))"
    and F: "\<And>r e. r < length (nodes mg) \<Longrightarrow> e \<in> set (outs (node_at mg r)) \<Longrightarrow>
          nodesById mg (sourceNodeId e) = Some r \<and>
          (\<exists>t. nodesById mg (targetNodeId e) = Some t \<and> e \<in> set (ins (node_at mg t)))"
    and D1: "\<And>r. r < length (nodes mg) \<Longrightarrow> distinct (map sourceNodeId (ins (node_at mg r)))"
    and D2: "\<And>r. r < length (nodes mg) \<Longrightarrow> distinct (map targetNodeId (outs (node_at mg r)))"
    using eo unfolding edges_ok_def by blast+
  have in_iff: "(\<exists>x \<in> set (ins (node_at mg node)). sourceNodeId x = s) \<longleftrightarrow> e \<in> set (ins (node_at mg node))"
  proof
    assume "\<exists>x \<in> set (ins (node_at mg node)). sourceNodeId x = s"
    then obtain x where x: "x \<in> set (ins (node_at mg node))" "sourceNodeId x = s" by blast
    then have "nodesById mg (targetNodeId x) = Some node" using E nlt by blast
    then have "targetNodeId x = gn_id g" using io nid by (auto simp: index_ok_def)
    then have "x = e" using x(2) by (simp add: e_def)
    then show "e \<in> set (ins (node_at mg node))" using x(1) by simp
  next
    assume "e \<in> set (ins (node_at mg node))"
    then show "\<exists>x \<in> set (ins (node_at mg node)). sourceNodeId x = s" by (auto simp: e_def intro!: bexI[of _ e])
  qed
  have out_iff: "(\<exists>x \<in> set (outs (node_at mg src)). targetNodeId x = gn_id g) \<longleftrightarrow> e \<in> set (outs (node_at mg src))"
  proof
    assume "\<exists>x \<in> set (outs (node_at mg src)). targetNodeId x = gn_id g"
    then obtain x where x: "x \<in> set (outs (node_at mg src))" "targetNodeId x = gn_id g" by blast
    then have "nodesById mg (sourceNodeId x) = Some src" using F slt by blast
    then have "sourceNodeId x = s" using io sid by (auto simp: index_ok_def)
    then have "x = e" using x(2) by (simp add: e_def)
    then show "e \<in> set (outs (node_at mg src))" using x(1) by simp
  next
    assume "e \<in> set (outs (node_at mg src))"
    then show "\<exists>x \<in> set (outs (node_at mg src)). targetNodeId x = gn_id g" by (auto simp: e_def intro!: bexI[of _ e])
  qed
  have sync: "e \<in> set (ins (node_at mg node)) \<longleftrightarrow> e \<in> set (outs (node_at mg src))"
  proof
    assume "e \<in> set (ins (node_at mg node))"
    from E[OF nlt this] Some show "e \<in> set (outs (node_at mg src))" by (auto simp: e_def)
  next
    assume "e \<in> set (outs (node_at mg src))"
    from F[OF slt this] nd show "e \<in> set (ins (node_at mg node))" by (auto simp: e_def)
  qed
  have ins': "\<And>x. x < length (nodes mg) \<Longrightarrow> ins (node_at mg' x) =
     (if x = node \<and> e \<notin> set (ins (node_at mg node)) then ins (node_at mg node) @ [e] else ins (node_at mg x))"
    using processIncomingEdge_ins[OF Some, of _ g node] in_iff by (simp add: mg'_def e_def)
  have outs': "\<And>x. x < length (nodes mg) \<Longrightarrow> outs (node_at mg' x) =
     (if x = src \<and> e \<notin> set (ins (node_at mg node)) then outs (node_at mg src) @ [e] else outs (node_at mg x))"
    using processIncomingEdge_outs[OF Some _ nlt, of _ g] out_iff sync nid by (simp add: mg'_def e_def)
  have fr: "nodesById mg' = nodesById mg" "length (nodes mg') = length (nodes mg)"
    by (simp_all add: mg'_def processIncomingEdge_frame)
  have te: "targetNodeId e = gn_id g" "sourceNodeId e = s" by (simp_all add: e_def)
  have "edges_ok mg'"
    unfolding edges_ok_def fr
  proof (intro allI impI conjI ballI)
    fix r x assume r: "r < length (nodes mg)" and x: "x \<in> set (ins (node_at mg' r))"
    show "nodesById mg (targetNodeId x) = Some r"
      using x r E[OF r] nd te by (auto simp: ins' split: if_splits)
    show "\<exists>s. nodesById mg (sourceNodeId x) = Some s \<and> x \<in> set (outs (node_at mg' s))"
    proof (cases "x = e")
      case True
      then show ?thesis using Some te slt sync x r by (auto simp: outs' ins' split: if_splits)
    next
      case False
      then have "x \<in> set (ins (node_at mg r))" using x r by (auto simp: ins' split: if_splits)
      from E[OF r this] obtain s' where s': "nodesById mg (sourceNodeId x) = Some s'" "x \<in> set (outs (node_at mg s'))" by blast
      then have "s' < length (nodes mg)" using io by (auto simp: index_ok_def)
      then show ?thesis using s' by (auto simp: outs')
    qed
  next
    fix r x assume r: "r < length (nodes mg)" and x: "x \<in> set (outs (node_at mg' r))"
    show "nodesById mg (sourceNodeId x) = Some r"
      using x r F[OF r] Some te by (auto simp: outs' split: if_splits)
    show "\<exists>t. nodesById mg (targetNodeId x) = Some t \<and> x \<in> set (ins (node_at mg' t))"
    proof (cases "x = e")
      case True
      then show ?thesis using nd te nlt sync x r by (auto simp: outs' ins' split: if_splits)
    next
      case False
      then have "x \<in> set (outs (node_at mg r))" using x r by (auto simp: outs' split: if_splits)
      from F[OF r this] obtain t where t: "nodesById mg (targetNodeId x) = Some t" "x \<in> set (ins (node_at mg t))" by blast
      then have "t < length (nodes mg)" using io by (auto simp: index_ok_def)
      then show ?thesis using t by (auto simp: ins')
    qed
  next
    fix r assume r: "r < length (nodes mg)"
    show "distinct (map sourceNodeId (ins (node_at mg' r)))"
      using D1[OF r] in_iff te r by (auto simp: ins')
    show "distinct (map targetNodeId (outs (node_at mg' r)))"
      using D2[OF r] out_iff sync te r by (auto simp: outs')
  qed
  then show ?thesis by (simp add: mg'_def)
qed

lemma index_ok_fold_incoming:
  "index_ok mg \<Longrightarrow> index_ok (fold (processIncomingEdge g node) ks mg)"
  by (induction ks arbitrary: mg) (simp_all add: index_ok_processIncomingEdge)

lemma edges_ok_fold_incoming:
  "index_ok mg \<Longrightarrow> edges_ok mg \<Longrightarrow> nodesById mg (gn_id g) = Some node \<Longrightarrow>
   edges_ok (fold (processIncomingEdge g node) ks mg)"
proof (induction ks arbitrary: mg)
  case Nil
  then show ?case by simp
next
  case (Cons k ks)
  have "nodesById (processIncomingEdge g node k mg) (gn_id g) = Some node"
    using Cons.prems(3) by (simp add: processIncomingEdge_frame)
  then show ?case
    using Cons by (simp add: index_ok_processIncomingEdge edges_ok_processIncomingEdge)
qed

lemma index_ok_processEdgesOf: "index_ok mg \<Longrightarrow> index_ok (processEdgesOf p g mg)"
  by (simp add: processEdgesOf_def index_ok_fold_incoming split: option.splits)

lemma edges_ok_processEdgesOf: "index_ok mg \<Longrightarrow> edges_ok mg \<Longrightarrow> edges_ok (processEdgesOf p g mg)"
  by (simp add: processEdgesOf_def edges_ok_fold_incoming split: option.splits)

lemma edges_ok_fold_processEdgesOf:
  "index_ok mg \<Longrightarrow> edges_ok mg \<Longrightarrow>
   index_ok (fold (processEdgesOf p) gs mg) \<and> edges_ok (fold (processEdgesOf p) gs mg)"
  by (induction gs arbitrary: mg) (simp_all add: index_ok_processEdgesOf edges_ok_processEdgesOf)

lemma fresh_new_node: "fresh_node (new_node t i l ns)"
  by (simp add: fresh_node_def new_node_def)

lemma index_ok_push_node: "index_ok mg \<Longrightarrow> index_ok (push_node n mg)"
  unfolding index_ok_def push_node_def node_at_def
  by (auto simp: nth_append less_Suc_eq)

lemma fresh_push_node:
  "list_all fresh_node (nodes mg) \<Longrightarrow> fresh_node n \<Longrightarrow> list_all fresh_node (nodes (push_node n mg))"
  by (simp add: push_node_def)

lemma rootNodes_push_node: "rootNodes (push_node n mg) = rootNodes mg"
  by (simp add: push_node_def)

lemma graph_id_push_node: "graph_id (push_node n mg) = graph_id mg"
  by (simp add: push_node_def)

lemma nodes_ok_processNode: "nodes_ok (snd st) \<Longrightarrow> nodes_ok (snd (processNode p g st))"
  by (simp add: nodes_ok_def processNode_def Let_def index_ok_push_node fresh_push_node
      fresh_new_node rootNodes_push_node graph_id_push_node)

lemma nodes_ok_fold_processNode:
  "nodes_ok (snd st) \<Longrightarrow> nodes_ok (snd (fold (processNode p) gs st))"
  by (induction gs arbitrary: st) (simp_all add: nodes_ok_processNode)

lemma nodes_ok_empty: "nodes_ok createEmptyModelGraph"
  by (simp add: nodes_ok_def index_ok_def createEmptyModelGraph_def)

lemma nodes_ok_processNodes: "nodes_ok (processNodes p createEmptyModelGraph)"
  by (simp add: processNodes_def nodes_ok_fold_processNode nodes_ok_empty)

lemma fresh_edges_ok: "list_all fresh_node (nodes mg) \<Longrightarrow> edges_ok mg"
  by (auto simp: edges_ok_def list_all_length fresh_node_def ins_def outs_def node_at_def)

lemma built_ok: "index_ok (built p) \<and> edges_ok (built p)"
  unfolding built_def processEdgeRelationships_def
  using nodes_ok_processNodes[of p]
  by (intro edges_ok_fold_processEdgesOf) (simp_all add: nodes_ok_def fresh_edges_ok)

lemma edges_ok_symmetry:
  assumes "index_ok mg" "edges_ok mg" "a < length (nodes mg)" "b < length (nodes mg)"
  shows "outgoing_to mg a b = incoming_from mg b a"
proof
  assume "outgoing_to mg a b"
  then obtain e where e: "e \<in> set (outs (node_at mg a))" "nodesById mg (targetNodeId e) = Some b"
    by (auto simp: outgoing_to_def list_ex_iff)
  with assms(2,3) have "nodesById mg (sourceNodeId e) = Some a \<and> e \<in> set (ins (node_at mg b))"
    unfolding edges_ok_def by fastforce
  then show "incoming_from mg b a" by (auto simp: incoming_from_def list_ex_iff)
next
  assume "incoming_from mg b a"
  then obtain e where e: "e \<in> set (ins (node_at mg b))" "nodesById mg (sourceNodeId e) = Some a"
    by (auto simp: incoming_from_def list_ex_iff)
  with assms(2,4) have "nodesById mg (targetNodeId e) = Some b \<and> e \<in> set (outs (node_at mg a))"
    unfolding edges_ok_def by fastforce
  then show "outgoing_to mg a b" by (auto simp: outgoing_to_def list_ex_iff)
qed

text \<open>
  C2. For every input graph, in the model graph produced by the builder's node and edge
  passes, node \<open>a\<close> has an outgoing edge to node \<open>b\<close> if and only if node \<open>b\<close> has an
  incoming edge from node \<open>a\<close>; and each list is de-duplicated by neighbour id: no two
  outgoing edges of a node share a target id, no two incoming edges share a source id.
\<close>

theorem edge_symmetry:
  "a < length (nodes (built p)) \<Longrightarrow> b < length (nodes (built p)) \<Longrightarrow>
     outgoing_to (built p) a b = incoming_from (built p) b a
     \<and> distinct (map targetNodeId (outs (node_at (built p) a)))
     \<and> distinct (map sourceNodeId (ins (node_at (built p) b)))"
  using built_ok[of p] edges_ok_symmetry[of "built p" a b]
  by (simp add: edges_ok_def)

text \<open>
  The witness is the spec's scenario: nodes \<open>a\<close>, \<open>b\<close>, \<open>c\<close> in namespace \<open>g\<close> with edges
  \<open>a \<rightarrow> b\<close> and \<open>b \<rightarrow> c\<close>, the upstream lists holding a repeated and a dangling id as well.
  The store is \<open>[a, g, b, c]\<close>.
\<close>

theorem edge_symmetry_witness:
  "0 < length (nodes (built scenario_abc)) \<and> 2 < length (nodes (built scenario_abc))
   \<and> outgoing_to (built scenario_abc) 0 2 \<and> incoming_from (built scenario_abc) 2 0
   \<and> distinct (map targetNodeId (outs (node_at (built scenario_abc) 0)))
   \<and> distinct (map sourceNodeId (ins (node_at (built scenario_abc) 2)))"
proof -
  have a: "0 < length (nodes (built scenario_abc))" by code_simp
  have b: "2 < length (nodes (built scenario_abc))" by code_simp
  have o: "outgoing_to (built scenario_abc) 0 2" by code_simp
  from edge_symmetry[OF a b] o a b show ?thesis by simp
qed


section \<open>The aggregator\<close>

lemma node_at_upd:
  "node_at (upd_node r f mg) x = (if x = r \<and> r < length (nodes mg) then f (node_at mg r) else node_at mg x)"
  by (cases "r < length (nodes mg)") (auto simp: node_at_def upd_node_def list_update_beyond)

lemma foldM_snoc:
  "foldM f (xs @ [x]) s =
     (case foldM f xs s of None \<Rightarrow> None | Some (Inl e) \<Rightarrow> Some (Inl e) | Some (Inr s') \<Rightarrow> f x s')"
  by (induction xs arbitrary: s) (auto split: option.splits sum.splits)

lemma foldM_upt_invariant:
  assumes "foldM f [0..<n] s0 = Some (Inr s')"
    and "I 0 s0"
    and "\<And>k s t. k < n \<Longrightarrow> I k s \<Longrightarrow> f k s = Some (Inr t) \<Longrightarrow> I (Suc k) t"
  shows "I n s'"
  using assms
proof (induction n arbitrary: s')
  case 0
  then show ?case by simp
next
  case (Suc n)
  from Suc.prems(1) obtain s1 where s1: "foldM f [0..<n] s0 = Some (Inr s1)" and fs: "f n s1 = Some (Inr s')"
    by (auto simp: foldM_snoc split: option.splits sum.splits)
  have "I n s1" using Suc.IH[OF s1 Suc.prems(2)] Suc.prems(3) by simp
  then show ?case using Suc.prems(3)[of n s1 s'] fs by simp
qed

lemma foldM_list_invariant:
  assumes "foldM f xs s0 = Some (Inr s')"
    and "I s0"
    and "\<And>x s t. x \<in> set xs \<Longrightarrow> I s \<Longrightarrow> f x s = Some (Inr t) \<Longrightarrow> I t"
  shows "I s'"
  using assms
proof (induction xs arbitrary: s0)
  case Nil
  then show ?case by simp
next
  case (Cons a xs)
  from Cons.prems(1) obtain s1 where s1: "f a s0 = Some (Inr s1)" and r: "foldM f xs s1 = Some (Inr s')"
    by (auto split: option.splits sum.splits)
  have "I s1" using Cons.prems(3)[of a s0 s1] Cons.prems(2) s1 by simp
  show ?case
  proof (rule Cons.IH[OF r \<open>I s1\<close>])
    fix x s t assume "x \<in> set xs" "I s" "f x s = Some (Inr t)"
    then show "I t" using Cons.prems(3)[of x s t] by simp
  qed
qed

lemma js_le_refl: "js_le a a"
  by (cases a) auto

lemma js_le_trans: "js_le a b \<Longrightarrow> js_le b c \<Longrightarrow> js_le a c"
  by (cases a; cases b; cases c) auto

lemma js_le_total: "js_le a b \<or> js_le b a"
  by (cases a; cases b) auto

lemma Math_min_le: "js_le (Math_min a b) a" "js_le (Math_min a b) b"
  using js_le_total[of a b] by (auto simp: Math_min_def js_le_refl)

lemma Math_max_ge: "js_le a (Math_max a b)" "js_le b (Math_max a b)"
  using js_le_total[of a b] by (auto simp: Math_max_def js_le_refl)

lemma descendants_consistent_mono:
  "descendants_consistent lo hi n \<Longrightarrow> js_le lo' lo \<Longrightarrow> js_le hi hi' \<Longrightarrow> descendants_consistent lo' hi' n"
  by (auto simp: descendants_consistent_def split: option.splits intro: js_le_trans)

lemma counts_inv_populateNode:
  assumes "k < len" "counts_inv len k st" "populateNode n k st = Some (Inr t)"
  shows "counts_inv len (Suc k) t"
proof (cases "isGroupNode (Some (node_at (cs_graph st) k))")
  case False
  then have "t = st" using assms(3) by (simp add: populateNode_def Let_def)
  then show ?thesis using assms(2) False by (auto simp: counts_inv_def less_Suc_eq)
next
  case True
  define mg where "mg = cs_graph st"
  from True assms(3) obtain ds where ds: "gatherDescendants n mg k [] = Some (Inr ds)"
    by (auto simp: populateNode_def Let_def mg_def split: option.splits sum.splits)
  define dn where "dn = map (\<lambda>d. node_id (node_at mg d)) ds"
  define da where "da = map (\<lambda>d. node_id (node_at mg d)) (filter (\<lambda>d. nodeType (node_at mg d) = ASSET_NODE) ds)"
  define mg1 where "mg1 = upd_node k (\<lambda>x. x\<lparr>descendantsNodeIds := Some dn, descendantsAssetNodeIds := Some da\<rparr>) mg"
  have klt: "k < length (nodes mg)" using assms(1,2) by (simp add: counts_inv_def mg_def)
  have da_k: "descendantsAssetNodeIds (node_at mg1 k) = Some da" "descendantsNodeIds (node_at mg1 k) = Some dn"
    using klt by (simp_all add: mg1_def node_at_upd)
  have t: "t = \<lparr>cs_graph = mg1,
                 minAssetNodeCount = Math_min (Finite (int (length da))) (minAssetNodeCount st),
                 maxAssetNodeCount = Math_max (Finite (int (length da))) (maxAssetNodeCount st)\<rparr>"
    using True assms(3) ds da_k
    by (simp add: populateNode_def Let_def mg_def[symmetric] dn_def[symmetric] da_def[symmetric] mg1_def[symmetric])
  have sub: "set da \<subseteq> set dn" by (auto simp: da_def dn_def)
  have len: "length (nodes mg1) = len" using assms(2) by (simp add: mg1_def upd_node_def counts_inv_def mg_def)
  show ?thesis
    unfolding counts_inv_def
  proof (intro conjI allI impI)
    show "length (nodes (cs_graph t)) = len" using len t by simp
  next
    fix r assume r: "r < Suc k" and g: "isGroupNode (Some (node_at (cs_graph t) r))"
    show "descendants_consistent (minAssetNodeCount t) (maxAssetNodeCount t) (node_at (cs_graph t) r)"
    proof (cases "r = k")
      case True
      then show ?thesis using da_k sub t
        by (simp add: descendants_consistent_def Math_min_le Math_max_ge)
    next
      case False
      then have rk: "r < k" using r by simp
      have same: "node_at mg1 r = node_at mg r" using False by (simp add: mg1_def node_at_upd)
      then have "isGroupNode (Some (node_at mg r))" using g t by simp
      then have "descendants_consistent (minAssetNodeCount st) (maxAssetNodeCount st) (node_at mg r)"
        using assms(2) rk by (simp add: counts_inv_def mg_def)
      then show ?thesis using same t
        by (auto intro: descendants_consistent_mono simp: Math_min_le Math_max_ge)
    qed
  qed
qed

lemma populate_consistent:
  assumes "populateDescendantsAndCounts n mg = Some (Inr mg')"
  shows "descendant_consistency mg'"
proof -
  from assms obtain st where st: "foldM (populateNode n) [0..<length (nodes mg)]
             \<lparr>cs_graph = mg, minAssetNodeCount = MAX_VALUE, maxAssetNodeCount = NEGATIVE_INFINITY\<rparr> = Some (Inr st)"
    and mg': "mg' = (cs_graph st)\<lparr>minDescendantAssetNodeCount := minAssetNodeCount st,
                                   maxDescendantAssetNodeCount := maxAssetNodeCount st\<rparr>"
    by (auto simp: populateDescendantsAndCounts_def split: option.splits sum.splits)
  have "counts_inv (length (nodes mg)) (length (nodes mg)) st"
  proof (rule foldM_upt_invariant[OF st, where I = "counts_inv (length (nodes mg))"])
    show "counts_inv (length (nodes mg)) 0
            \<lparr>cs_graph = mg, minAssetNodeCount = MAX_VALUE, maxAssetNodeCount = NEGATIVE_INFINITY\<rparr>"
      by (simp add: counts_inv_def)
  next
    fix k s t
    assume "k < length (nodes mg)" "counts_inv (length (nodes mg)) k s" "populateNode n k s = Some (Inr t)"
    then show "counts_inv (length (nodes mg)) (Suc k) t" by (rule counts_inv_populateNode)
  qed
  then show ?thesis
    by (auto simp: descendant_consistency_def counts_inv_def mg' list_all_length node_at_def)
qed


lemma bare_push_incoming: "bare_node (push_incoming e n) = bare_node n"
  by (simp add: bare_node_def push_incoming_def Let_def)

lemma bare_push_outgoing: "bare_node (push_outgoing e n) = bare_node n"
  by (simp add: bare_node_def push_outgoing_def Let_def)

lemma list_all_upd_node:
  "list_all P (nodes mg) \<Longrightarrow> (\<And>n. P n \<Longrightarrow> P (f n)) \<Longrightarrow> list_all P (nodes (upd_node r f mg))"
proof -
  assume a: "list_all P (nodes mg)" and f: "\<And>n. P n \<Longrightarrow> P (f n)"
  have "\<And>k. k < length (nodes mg) \<Longrightarrow> P ((nodes mg)[r := f (nodes mg ! r)] ! k)"
  proof -
    fix k assume k: "k < length (nodes mg)"
    then have "P (nodes mg ! k)" using a by (simp add: list_all_length)
    then show "P ((nodes mg)[r := f (nodes mg ! r)] ! k)"
      using k f by (cases "k = r") (simp_all)
  qed
  then show ?thesis by (simp add: upd_node_def list_all_length)
qed

lemma upd_node_frame:
  "rootNodes (upd_node r f mg) = rootNodes mg" "graph_id (upd_node r f mg) = graph_id mg"
  "nodesById (upd_node r f mg) = nodesById mg" "length (nodes (upd_node r f mg)) = length (nodes mg)"
  "layoutGraphEdges (upd_node r f mg) = layoutGraphEdges mg"
  "artificialGroupNodeIds (upd_node r f mg) = artificialGroupNodeIds mg"
  by (simp_all add: upd_node_def)

lemma bare_processIncomingEdge: "bare_graph mg \<Longrightarrow> bare_graph (processIncomingEdge g node s mg)"
  by (auto simp: bare_graph_def processIncomingEdge_def Let_def upd_node_frame
      bare_push_incoming bare_push_outgoing intro!: list_all_upd_node split: option.splits)

lemma bare_fold_incoming: "bare_graph mg \<Longrightarrow> bare_graph (fold (processIncomingEdge g node) ks mg)"
  by (induction ks arbitrary: mg) (simp_all add: bare_processIncomingEdge)

lemma bare_processEdgesOf: "bare_graph mg \<Longrightarrow> bare_graph (processEdgesOf p g mg)"
  by (simp add: processEdgesOf_def bare_fold_incoming split: option.splits)

lemma bare_fold_processEdgesOf: "bare_graph mg \<Longrightarrow> bare_graph (fold (processEdgesOf p) gs mg)"
  by (induction gs arbitrary: mg) (simp_all add: bare_processEdgesOf)

lemma fresh_bare: "fresh_node n \<Longrightarrow> bare_node n"
  by (simp add: fresh_node_def bare_node_def)

lemma bare_built: "bare_graph (built p)"
proof -
  have "bare_graph (processNodes p createEmptyModelGraph)"
    using nodes_ok_processNodes[of p]
    by (auto simp: nodes_ok_def bare_graph_def list_all_iff fresh_bare)
  then show ?thesis by (simp add: built_def processEdgeRelationships_def bare_fold_processEdgesOf)
qed

text \<open>The layout-connection pass cannot throw on a graph whose edges respect the index.\<close>

lemma filterIncomingEdges_ok:
  "(\<forall>e \<in> set es. nodesById mg (sourceNodeId e) \<noteq> None) \<Longrightarrow> \<exists>r. filterIncomingEdges mg es = Inr r"
  by (induction es) (auto simp: lookup_def split: option.splits)

lemma assetNodesWithoutIncomingEdges_ok:
  "(\<forall>r \<in> set rs. \<forall>e \<in> set (ins (node_at mg r)). nodesById mg (sourceNodeId e) \<noteq> None) \<Longrightarrow>
   \<exists>found. assetNodesWithoutIncomingEdges mg rs = Inr found"
proof (induction rs)
  case Nil
  then show ?case by simp
next
  case (Cons r rs)
  then obtain found where f: "assetNodesWithoutIncomingEdges mg rs = Inr found" by auto
  from Cons.prems obtain es where "filterIncomingEdges mg (ins (node_at mg r)) = Inr es"
    using filterIncomingEdges_ok[of "ins (node_at mg r)" mg] by auto
  then show ?case using f by (simp add: Let_def)
qed

lemma generate_ok:
  assumes "edges_ok mg"
  shows "generateLayoutGraphConnections mg = Inr (mg\<lparr>layoutGraphEdges := Map.empty\<rparr>)"
proof -
  define mg0 where "mg0 = mg\<lparr>layoutGraphEdges := Map.empty\<rparr>"
  have same: "node_at mg0 = node_at mg" "nodesById mg0 = nodesById mg" "nodes mg0 = nodes mg"
    by (auto simp: mg0_def node_at_def fun_eq_iff)
  have "\<forall>r \<in> set [0..<length (nodes mg0)]. \<forall>e \<in> set (ins (node_at mg0 r)). nodesById mg0 (sourceNodeId e) \<noteq> None"
    using assms unfolding edges_ok_def same by fastforce
  from assetNodesWithoutIncomingEdges_ok[OF this]
  show ?thesis by (auto simp: generateLayoutGraphConnections_def Let_def mg0_def[symmetric])
qed

text \<open>With an empty root list and a threshold that is not negative, the splitter does nothing.\<close>

lemma splitLoop_no_roots:
  assumes "rootNodes mg = []" "0 \<le> groupNodeChildrenCountThreshold p"
  shows "splitLoop (Suc n) p [None] False mg = Some (Inr (False, mg))"
  using assms by (simp add: childrenOfScope_def groupChildren_def Let_def)

lemma splitLargeGroupNodes_no_roots:
  assumes "rootNodes mg = []" "0 \<le> groupNodeChildrenCountThreshold p"
  shows "splitLargeGroupNodes (Suc n) p mg = Some (Inr mg)"
  using splitLoop_no_roots[OF assms] by (simp add: splitLargeGroupNodes_def)

lemma gatherDescendants_childless:
  "childrenIds (node_at mg r) = None \<Longrightarrow> gatherDescendants (Suc n) mg r ds = Some (Inr ds)"
  by (simp add: children_of_def)

lemma populateNode_childless:
  assumes "k < length (nodes mg)" "childless_inv mg k st"
  shows "\<exists>t. populateNode (Suc n) k st = Some (Inr t) \<and> childless_inv mg (Suc k) t"
proof (cases "isGroupNode (Some (node_at (cs_graph st) k))")
  case False
  then have "populateNode (Suc n) k st = Some (Inr st)" by (simp add: populateNode_def Let_def)
  moreover have "childless_inv mg (Suc k) st"
    using assms False by (auto simp: childless_inv_def less_Suc_eq no_descendants_def)
  ultimately show ?thesis by simp
next
  case True
  have ch: "childrenIds (node_at (cs_graph st) k) = None" using assms by (simp add: childless_inv_def)
  have klt: "k < length (nodes (cs_graph st))" using assms by (simp add: childless_inv_def)
  define t where "t = \<lparr>cs_graph = upd_node k (\<lambda>x. x\<lparr>descendantsNodeIds := Some [], descendantsAssetNodeIds := Some []\<rparr>) (cs_graph st),
       minAssetNodeCount = Math_min (Finite 0) (minAssetNodeCount st),
       maxAssetNodeCount = Math_max (Finite 0) (maxAssetNodeCount st)\<rparr>"
  have "populateNode (Suc n) k st = Some (Inr t)"
    using True klt unfolding populateNode_def Let_def gatherDescendants_childless[OF ch]
    by (simp add: t_def node_at_upd)
  moreover have "childless_inv mg (Suc k) t"
    using assms(2) klt unfolding childless_inv_def t_def
    by (auto simp: upd_node_frame node_at_upd no_descendants_def less_Suc_eq isGroupNode_def)
  ultimately show ?thesis by simp
qed

lemma foldM_upt_total:
  assumes "I 0 s0"
    and "\<And>k s. k < n \<Longrightarrow> I k s \<Longrightarrow> \<exists>t. f k s = Some (Inr t) \<and> I (Suc k) t"
  shows "\<exists>s'. foldM f [0..<n] s0 = Some (Inr s') \<and> I n s'"
  using assms
proof (induction n)
  case 0
  then show ?case by simp
next
  case (Suc n)
  then obtain s1 where s1: "foldM f [0..<n] s0 = Some (Inr s1)" "I n s1" by fastforce
  from Suc.prems(2)[of n s1] s1 obtain t where "f n s1 = Some (Inr t)" "I (Suc n) t" by auto
  then show ?case using s1 by (simp add: foldM_snoc)
qed

lemma populate_childless:
  assumes "childless mg"
  shows "\<exists>st. populateDescendantsAndCounts (Suc n) mg =
            Some (Inr ((cs_graph st)\<lparr>minDescendantAssetNodeCount := minAssetNodeCount st,
                                     maxDescendantAssetNodeCount := maxAssetNodeCount st\<rparr>))
          \<and> childless_inv mg (length (nodes mg)) st"
proof -
  have "\<exists>s'. foldM (populateNode (Suc n)) [0..<length (nodes mg)]
             \<lparr>cs_graph = mg, minAssetNodeCount = MAX_VALUE, maxAssetNodeCount = NEGATIVE_INFINITY\<rparr> = Some (Inr s')
          \<and> childless_inv mg (length (nodes mg)) s'"
  proof (rule foldM_upt_total[where I = "childless_inv mg"])
    show "childless_inv mg 0 \<lparr>cs_graph = mg, minAssetNodeCount = MAX_VALUE, maxAssetNodeCount = NEGATIVE_INFINITY\<rparr>"
      using assms by (simp add: childless_inv_def childless_def list_all_length node_at_def)
  next
    fix k s assume "k < length (nodes mg)" "childless_inv mg k s"
    then show "\<exists>t. populateNode (Suc n) k s = Some (Inr t) \<and> childless_inv mg (Suc k) t"
      by (rule populateNode_childless)
  qed
  then show ?thesis by (auto simp: populateDescendantsAndCounts_def)
qed

lemma process_returns:
  assumes "0 \<le> groupNodeChildrenCountThreshold p"
  shows "\<exists>mg. process (Suc n) p = Some (Inr mg) \<and> process_post mg
            \<and> length (nodes mg) = length (nodes (built p))"
proof -
  define mg1 where "mg1 = (built p)\<lparr>layoutGraphEdges := Map.empty\<rparr>"
  have g: "generateLayoutGraphConnections (built p) = Inr mg1"
    using built_ok[of p] by (simp add: generate_ok mg1_def)
  have b: "bare_graph mg1" using bare_built[of p] by (simp add: bare_graph_def mg1_def)
  then have s: "splitLargeGroupNodes (Suc n) p mg1 = Some (Inr mg1)"
    using assms by (simp add: splitLargeGroupNodes_no_roots bare_graph_def)
  have "childless mg1" using b by (auto simp: childless_def bare_graph_def bare_node_def list_all_iff)
  from populate_childless[OF this, of n] obtain st where
    st: "populateDescendantsAndCounts (Suc n) mg1 =
            Some (Inr ((cs_graph st)\<lparr>minDescendantAssetNodeCount := minAssetNodeCount st,
                                     maxDescendantAssetNodeCount := maxAssetNodeCount st\<rparr>))"
    and inv: "childless_inv mg1 (length (nodes mg1)) st" by blast
  have "process (Suc n) p = Some (Inr ((cs_graph st)\<lparr>minDescendantAssetNodeCount := minAssetNodeCount st,
                                     maxDescendantAssetNodeCount := maxAssetNodeCount st\<rparr>))"
    using g s st by (simp add: process_def built_def[symmetric])
  moreover have "process_post ((cs_graph st)\<lparr>minDescendantAssetNodeCount := minAssetNodeCount st,
                                     maxDescendantAssetNodeCount := maxAssetNodeCount st\<rparr>)"
    using inv b unfolding process_post_def childless_inv_def bare_graph_def
    by (auto simp: list_all_length node_at_def bare_node_def)
  moreover have "length (nodes (cs_graph st)) = length (nodes (built p))"
    using inv by (simp add: childless_inv_def mg1_def)
  ultimately show ?thesis by simp
qed


lemma returnsI: "r = Some (Inr x) \<Longrightarrow> P x \<Longrightarrow> returns r P"
  by (simp add: returns_def)

lemma returnsE: "returns r P \<Longrightarrow> \<exists>x. r = Some (Inr x) \<and> P x"
  by (auto simp: returns_def split: option.splits sum.splits)

lemma populateNode_not_group:
  "\<not> isGroupNode (Some (node_at (cs_graph st) r)) \<Longrightarrow> populateNode n r st = Some (Inr st)"
  by (simp add: populateNode_def Let_def)

lemma foldM_populate_no_groups:
  "(\<forall>r \<in> set rs. \<not> isGroupNode (Some (node_at (cs_graph st) r))) \<Longrightarrow>
   foldM (populateNode n) rs st = Some (Inr st)"
  by (induction rs) (simp_all add: populateNode_not_group)

text \<open>
  C8. For every model graph with no group node, \<open>populateDescendantsAndCounts\<close> returns
  (whatever the fuel) and stores the initial values unchanged: \<open>Number.MAX_VALUE\<close> in
  \<open>minDescendantAssetNodeCount\<close> and \<open>Number.NEGATIVE_INFINITY\<close> in
  \<open>maxDescendantAssetNodeCount\<close>; nothing else of the graph changes.
\<close>

theorem no_groups_sentinels:
  assumes "list_all (\<lambda>x. nodeType x \<noteq> GROUP_NODE) (nodes mg)"
  shows "populateDescendantsAndCounts n mg =
           Some (Inr (mg\<lparr>minDescendantAssetNodeCount := MAX_VALUE,
                         maxDescendantAssetNodeCount := NEGATIVE_INFINITY\<rparr>))"
proof -
  have "\<forall>r \<in> set [0..<length (nodes mg)]. \<not> isGroupNode (Some (node_at mg r))"
    using assms by (simp add: list_all_length isGroupNode_def node_at_def)
  then have "foldM (populateNode n) [0..<length (nodes mg)]
          \<lparr>cs_graph = mg, minAssetNodeCount = MAX_VALUE, maxAssetNodeCount = NEGATIVE_INFINITY\<rparr> =
        Some (Inr \<lparr>cs_graph = mg, minAssetNodeCount = MAX_VALUE, maxAssetNodeCount = NEGATIVE_INFINITY\<rparr>)"
    by (intro foldM_populate_no_groups) simp
  then show ?thesis by (simp add: populateDescendantsAndCounts_def)
qed

text \<open>The witness is the scenario graph built with \<open>flattenLayers\<close>, which has three asset nodes.\<close>

theorem no_groups_sentinels_witness:
  "list_all (\<lambda>x. nodeType x \<noteq> GROUP_NODE) (nodes (built scenario_flat))
   \<and> length (nodes (built scenario_flat)) = 3
   \<and> returns (populateDescendantsAndCounts 0 (built scenario_flat))
        (\<lambda>mg. minDescendantAssetNodeCount mg = MAX_VALUE
            \<and> maxDescendantAssetNodeCount mg = NEGATIVE_INFINITY)"
proof -
  have a: "list_all (\<lambda>x. nodeType x \<noteq> GROUP_NODE) (nodes (built scenario_flat))" by code_simp
  have b: "length (nodes (built scenario_flat)) = 3" by code_simp
  show ?thesis using no_groups_sentinels[OF a, of 0] a b by (simp add: returns_def)
qed

section \<open>What process returns\<close>

text \<open>
  C10. For every input graph and every threshold that is not negative, \<open>process\<close> returns
  (one unit of fuel is enough), and in the graph it returns no node has \<open>childrenIds\<close>
  assigned, \<open>rootNodes\<close> is empty, and every group node's \<open>descendantsNodeIds\<close> and
  \<open>descendantsAssetNodeIds\<close> are the empty list; the splitter's loop ends with
  \<open>hasLargeGroupNodes\<close> false and the graph as it found it, so the split branch is never
  taken.
\<close>

theorem process_builds_no_hierarchy:
  assumes "0 \<le> groupNodeChildrenCountThreshold p"
  shows "returns (process (Suc n) p)
           (\<lambda>mg. rootNodes mg = []
                \<and> list_all (\<lambda>x. childrenIds x = None \<and> no_descendants x) (nodes mg))
         \<and> (case generateLayoutGraphConnections (built p) of
               Inl e \<Rightarrow> False
             | Inr mg1 \<Rightarrow> splitLoop (Suc n) p [None] False mg1 = Some (Inr (False, mg1)))"
proof -
  from process_returns[OF assms, of n] obtain mg where
    mg: "process (Suc n) p = Some (Inr mg)" "process_post mg" by blast
  have "list_all (\<lambda>x. childrenIds x = None \<and> no_descendants x) (nodes mg)"
    using mg(2) by (auto simp: process_post_def list_all_iff)
  then have a: "returns (process (Suc n) p)
           (\<lambda>mg. rootNodes mg = []
                \<and> list_all (\<lambda>x. childrenIds x = None \<and> no_descendants x) (nodes mg))"
    using mg by (simp add: returns_def process_post_def)
  have g: "generateLayoutGraphConnections (built p) = Inr ((built p)\<lparr>layoutGraphEdges := Map.empty\<rparr>)"
    using built_ok[of p] by (simp add: generate_ok)
  have "rootNodes ((built p)\<lparr>layoutGraphEdges := Map.empty\<rparr>) = []"
    using bare_built[of p] by (simp add: bare_graph_def)
  from splitLoop_no_roots[OF this assms, of n] a g show ?thesis by simp
qed

theorem process_builds_no_hierarchy_witness:
  "0 \<le> groupNodeChildrenCountThreshold scenario_abc
   \<and> returns (process 1 scenario_abc)
       (\<lambda>mg. rootNodes mg = [] \<and> length (nodes mg) = 4
            \<and> list_all (\<lambda>x. childrenIds x = None \<and> no_descendants x) (nodes mg)
            \<and> map descendantsNodeIds (nodes mg) = [None, Some [], None, None])"
proof -
  have t: "0 \<le> groupNodeChildrenCountThreshold scenario_abc" by (simp add: scenario_abc_def)
  have "returns (process 1 scenario_abc)
       (\<lambda>mg. length (nodes mg) = 4 \<and> map descendantsNodeIds (nodes mg) = [None, Some [], None, None])"
    by code_simp
  then obtain mg where mg: "process 1 scenario_abc = Some (Inr mg)" "length (nodes mg) = 4"
     "map descendantsNodeIds (nodes mg) = [None, Some [], None, None]"
    by (auto dest!: returnsE)
  from process_builds_no_hierarchy[OF t, of 0] mg t show ?thesis by (simp add: returns_def)
qed

text \<open>
  C5, at the scenario graph: \<open>process\<close> returns with \<open>rootNodes\<close> empty, while all four nodes
  (three assets and the group) have no \<open>parentId\<close>.
\<close>

theorem process_rootNodes_empty:
  "returns (process 1 scenario_abc)
     (\<lambda>mg. rootNodes mg = [] \<and> parentless mg = [0, 1, 2, 3]
          \<and> set (rootNodes mg) \<noteq> set (parentless mg))"
  by code_simp

section \<open>The worker\<close>

text \<open>
  Whatever the request's graph id, the model graph that \<open>handleProcessGraph\<close> returns without
  an initial layout has the id \<open><ROOT>\<close> that \<open>createEmptyModelGraph\<close> gave it.
\<close>

lemma handleProcessGraph_graph_id:
  assumes "0 \<le> DEFAULT_GROUP_NODE_CHILDREN_COUNT_THRESHOLD env" "initialLayout \<noteq> Some True"
  shows "returns (handleProcessGraph (Suc n) env graphId g initialLayout)
           (\<lambda>r. graph_id (fst r) = ''<ROOT>'')"
proof -
  define p where "p = \<lparr>paneId = graphId, graph = g,
             groupNodeChildrenCountThreshold = DEFAULT_GROUP_NODE_CHILDREN_COUNT_THRESHOLD env,
             testMode = False, flattenLayers = False,
             groupIdForNode = env_groupIdForNode env,
             getLayoutGraph = env_getLayoutGraph env\<rparr>"
  have "0 \<le> groupNodeChildrenCountThreshold p" using assms(1) by (simp add: p_def)
  from process_returns[OF this, of n] obtain mg where
    mg: "process (Suc n) p = Some (Inr mg)" "process_post mg" by blast
  then show ?thesis
    using assms(2)
    by (simp add: handleProcessGraph_def p_def[symmetric] Let_def returns_def process_post_def)
qed

text \<open>
  C9, at a request with graph id \<open>g1\<close>: the model graph in the response and in the cache
  has the id \<open><ROOT>\<close>, and it is cached under \<open><ROOT>___g1\<close>.
\<close>

theorem process_graph_id_is_ROOT:
  "(case onMessage 1 plain_env request_g1 empty_worker of
      Some (None, w) \<Rightarrow>
        (case last (outbox w) of
           PROCESS_GRAPH_RESP modelGraph graphId \<Rightarrow>
             graphId = ''g1'' \<and> graph_id modelGraph = ''<ROOT>'' \<and> graph_id modelGraph \<noteq> graphId
         | _ \<Rightarrow> False)
        \<and> MODEL_GRAPHS_CACHE w (getModelGraphKey ''<ROOT>'' ''g1'') = Some 0
        \<and> MODEL_GRAPHS_CACHE w (getModelGraphKey ''g1'' ''g1'') = None
        \<and> graph_id (graphs w ! 0) = ''<ROOT>''
    | _ \<Rightarrow> False)"
  by code_simp

text \<open>
  C6, at a request whose key is cached: collapsing or expanding an unknown group id with
  \<open>all\<close> set throws a \<open>TypeError\<close> (the read of \<open>descendantsNodeIds\<close> of \<open>undefined\<close>), and
  no response is posted.
\<close>

theorem collapse_unknown_group_throws:
  "(case onMessage 1 plain_env request_g1 empty_worker of
      Some (None, w) \<Rightarrow>
        MODEL_GRAPHS_CACHE w (getModelGraphKey ''<ROOT>'' ''g1'') = Some 0
        \<and> (case onMessage 1 plain_env collapse_unknown w of
              Some (Some e, w1) \<Rightarrow> e = TypeError \<and> length (outbox w1) = length (outbox w)
            | _ \<Rightarrow> False)
        \<and> (case onMessage 1 plain_env expand_unknown w of
              Some (Some e, w1) \<Rightarrow> e = TypeError \<and> length (outbox w1) = length (outbox w)
            | _ \<Rightarrow> False)
    | _ \<Rightarrow> False)"
  by code_simp

text \<open>The cache-miss half of C6 holds: the request is rejected and the worker is unchanged.\<close>

lemma cache_miss_rejected:
  assumes "MODEL_GRAPHS_CACHE w (getModelGraphKey modelGraphId rendererId) = None"
  shows "onMessage n env (EXPAND_OR_COLLAPSE_GROUP_NODE_REQ modelGraphId groupNodeId expand rendererId all) w
           = Some (Some CacheMiss, w)"
    and "onMessage n env (RELAYOUT_GRAPH_REQ modelGraphId targets selectedNodeId rendererId clear) w
           = Some (Some CacheMiss, w)"
  using assms by (simp_all add: onMessage_def getCachedModelGraph_def)

lemma generate_layoutGraphEdges_empty:
  "generateLayoutGraphConnections mg = Inr mg' \<Longrightarrow> mg' = mg\<lparr>layoutGraphEdges := Map.empty\<rparr>"
  by (auto simp: generateLayoutGraphConnections_def Let_def split: sum.splits)

section \<open>Layout connections\<close>

text \<open>
  C4, at the scenario graph: \<open>generateLayoutGraphConnections\<close> returns with
  \<open>layoutGraphEdges\<close> empty, although the traversal from the root \<open>a\<close> visits \<open>a\<close>, \<open>b\<close> and
  \<open>c\<close> along the edges \<open>a \<rightarrow> b\<close> and \<open>b \<rightarrow> c\<close>.
\<close>

theorem layout_connections_not_recorded:
  "(case generateLayoutGraphConnections (built scenario_abc) of
      Inl e \<Rightarrow> False
    | Inr mg \<Rightarrow>
        layoutGraphEdges mg = Map.empty
        \<and> outgoing_to mg 0 2 \<and> outgoing_to mg 2 3
        \<and> assetNodesWithoutIncomingEdges mg [0..<length (nodes mg)] = Inr [0]
        \<and> bfs mg [Some 0] {} = {''a'', ''b'', ''c''})"
proof -
  have "edges_ok (built scenario_abc)" using built_ok by simp
  from generate_ok[OF this]
  have g: "generateLayoutGraphConnections (built scenario_abc) = Inr ((built scenario_abc)\<lparr>layoutGraphEdges := Map.empty\<rparr>)" .
  have "outgoing_to ((built scenario_abc)\<lparr>layoutGraphEdges := Map.empty\<rparr>) 0 2" by code_simp
  moreover have "outgoing_to ((built scenario_abc)\<lparr>layoutGraphEdges := Map.empty\<rparr>) 2 3" by code_simp
  moreover have "bfs ((built scenario_abc)\<lparr>layoutGraphEdges := Map.empty\<rparr>) [Some 0] {} = {''a'', ''b'', ''c''}" by code_simp
  moreover have "assetNodesWithoutIncomingEdges ((built scenario_abc)\<lparr>layoutGraphEdges := Map.empty\<rparr>)
      [0..<length (nodes ((built scenario_abc)\<lparr>layoutGraphEdges := Map.empty\<rparr>))] = Inr [0]" by code_simp
  ultimately show ?thesis using g by simp
qed


lemma sections_inv_upd_node:
  assumes "sections_inv n0 T c0 L mg" "\<And>x. section_ok T x \<Longrightarrow> section_ok T (f x)"
    and "\<And>x. length (children_of (f x)) = length (children_of x)"
  shows "sections_inv n0 T c0 L (upd_node r f mg)"
  using assms by (auto simp: sections_inv_def refs_ok_def upd_node_frame node_at_upd)

lemma sections_inv_upd_old:
  assumes "sections_inv n0 T c0 L mg" "r < n0" "\<not> int (c0 r) \<le> T"
  shows "sections_inv n0 T c0 L (upd_node r f mg)"
  using assms by (auto simp: sections_inv_def refs_ok_def upd_node_frame node_at_upd)

lemma length_children_renameInParent:
  "length (children_of (renameInParent a b x)) = length (children_of x)"
  by (auto simp: renameInParent_def children_of_def split: option.splits)

lemma section_ok_fields:
  "section_ok T (x\<lparr>namespace := a, level := b\<rparr>) = section_ok T x"
  "section_ok T (x\<lparr>node_id := c\<rparr>) = section_ok T x"
  "section_ok T (x\<lparr>parentId := d\<rparr>) = section_ok T x"
  by (simp_all add: section_ok_def children_of_def)

lemma section_ok_renameInParent:
  "section_ok T x \<Longrightarrow> section_ok T (renameInParent a b x)"
  by (auto simp: section_ok_def renameInParent_def children_of_def split: option.splits)

lemma sections_inv_setNamespace:
  "sections_inv n0 T c0 L mg \<Longrightarrow> sections_inv n0 T c0 L (setNamespace nnp cur r mg)"
  unfolding setNamespace_def Let_def
  by (rule sections_inv_upd_node) (simp_all add: section_ok_fields children_of_def)

lemma sections_inv_index:
  assumes "sections_inv n0 T c0 L mg" "r < L"
  shows "sections_inv n0 T c0 L (mg\<lparr>nodesById := ((nodesById mg)(a := None))(b \<mapsto> r)\<rparr>)"
  using assms by (auto simp: sections_inv_def refs_ok_def node_at_def)

lemma sections_inv_regenerateId:
  assumes "sections_inv n0 T c0 L mg" "r < L" "regenerateId r mg = Inr mg'"
  shows "sections_inv n0 T c0 L mg'"
proof -
  define newId where "newId = namespace (node_at mg r) @ ''/'' @ node_id (node_at mg r) @ ''___group___''"
  define mg1 where "mg1 = (upd_node r (\<lambda>x. x\<lparr>node_id := newId\<rparr>) mg)
                  \<lparr>nodesById := ((nodesById mg)(node_id (node_at mg r) := None))(newId \<mapsto> r)\<rparr>"
  have u: "sections_inv n0 T c0 L (upd_node r (\<lambda>x. x\<lparr>node_id := newId\<rparr>) mg)"
    using assms(1) by (rule sections_inv_upd_node) (simp_all add: section_ok_fields children_of_def)
  have "sections_inv n0 T c0 L mg1"
    using sections_inv_index[OF u assms(2), of "node_id (node_at mg r)" newId]
    by (simp add: mg1_def upd_node_frame)
  moreover have "mg' = mg1 \<or> (\<exists>ps. mg' = upd_node ps (renameInParent (node_id (node_at mg r)) newId) mg1)"
    using assms(3) unfolding regenerateId_def Let_def newId_def[symmetric] mg1_def[symmetric]
    by (auto split: option.splits if_splits)
  ultimately show ?thesis
    by (auto intro!: sections_inv_upd_node section_ok_renameInParent length_children_renameInParent)
qed

lemma sections_inv_updateNamespace:
  "sections_inv n0 T c0 L mg \<Longrightarrow> r < L \<Longrightarrow>
   updateNamespace n nnp cur r mg = Some (Inr mg') \<Longrightarrow> sections_inv n0 T c0 L mg'"
proof (induction n arbitrary: r mg mg')
  case 0
  then show ?case by simp
next
  case (Suc n)
  define mg1 where "mg1 = setNamespace nnp cur r mg"
  have i1: "sections_inv n0 T c0 L mg1" using Suc.prems(1) by (simp add: mg1_def sections_inv_setNamespace)
  show ?case
  proof (cases "isGroupNode (Some (node_at mg1 r))")
    case False
    then have "mg' = mg1" using Suc.prems(3) by (simp add: mg1_def[symmetric] Let_def)
    then show ?thesis using i1 by simp
  next
    case True
    then obtain mg2 where mg2: "regenerateId r mg1 = Inr mg2"
      and loop: "foldM (\<lambda>i g.
                         if i < length (children_of (node_at g r)) then
                           (case nodesById g (children_of (node_at g r) ! i) of
                              None \<Rightarrow> Some (Inr g)
                            | Some childNode \<Rightarrow>
                                updateNamespace n nnp cur childNode
                                  (upd_node childNode
                                     (\<lambda>x. x\<lparr>parentId := Some (node_id (node_at g r))\<rparr>) g))
                         else Some (Inr g))
                  [0..<length (children_of (node_at mg2 r))] mg2 = Some (Inr mg')"
      using Suc.prems(3) by (auto simp: mg1_def[symmetric] Let_def split: sum.splits)
    have i2: "sections_inv n0 T c0 L mg2" using sections_inv_regenerateId[OF i1 Suc.prems(2) mg2] .
    show ?thesis
    proof (rule foldM_list_invariant[OF loop, where I = "sections_inv n0 T c0 L"])
      show "sections_inv n0 T c0 L mg2" by (rule i2)
    next
      fix i g t
      assume g: "sections_inv n0 T c0 L g"
        and step: "(if i < length (children_of (node_at g r)) then
                 (case nodesById g (children_of (node_at g r) ! i) of
                    None \<Rightarrow> Some (Inr g)
                  | Some childNode \<Rightarrow>
                      updateNamespace n nnp cur childNode
                        (upd_node childNode (\<lambda>x. x\<lparr>parentId := Some (node_id (node_at g r))\<rparr>) g))
               else Some (Inr g)) = Some (Inr t)"
      show "sections_inv n0 T c0 L t"
      proof (cases "i < length (children_of (node_at g r))")
        case False
        then show ?thesis using step g by simp
      next
        case True
        show ?thesis
        proof (cases "nodesById g (children_of (node_at g r) ! i)")
          case None
          then show ?thesis using step g True by simp
        next
          case (Some c)
          have c: "c < L" using g Some by (auto simp: sections_inv_def refs_ok_def)
          define g1 where "g1 = upd_node c (\<lambda>x. x\<lparr>parentId := Some (node_id (node_at g r))\<rparr>) g"
          have "sections_inv n0 T c0 L g1" unfolding g1_def
            using g by (rule sections_inv_upd_node) (simp_all add: section_ok_fields children_of_def)
          moreover note c
          moreover have "updateNamespace n nnp cur c g1 = Some (Inr t)"
            using step True Some by (simp add: g1_def)
          ultimately show ?thesis by (rule Suc.IH)
        qed
      qed
    qed
  qed
qed

lemma dfs_inv_visit:
  "refs_ok mg \<Longrightarrow> dfs_inv (groupNodeChildrenCountThreshold p) (length (nodes mg)) st \<Longrightarrow>
   visit n p lg mg k st = Some (Inr st') \<Longrightarrow>
   dfs_inv (groupNodeChildrenCountThreshold p) (length (nodes mg)) st'"
proof (induction n arbitrary: k st st')
  case 0
  then show ?case by simp
next
  case (Suc n)
  show ?case
  proof (cases "k \<in> visitedNodeIds st")
    case True
    then show ?thesis using Suc.prems by simp
  next
    case False
    then obtain node where node: "nodesById mg k = Some node"
      using Suc.prems(3) by (auto split: option.splits)
    have nlt: "node < length (nodes mg)" using Suc.prems(1) node by (auto simp: refs_ok_def)
    define st1 where "st1 = pushVisited p k node st"
    have loop: "foldM (\<lambda>childId. visit n p lg mg childId)
                   (case lg_outgoingEdges lg (node_id (node_at mg node)) of
                      None \<Rightarrow> [] | Some cs \<Rightarrow> cs) st1 = Some (Inr st')"
      using Suc.prems(3) False node by (simp add: st1_def)
    have i1: "dfs_inv (groupNodeChildrenCountThreshold p) (length (nodes mg)) st1"
      using Suc.prems(2) nlt by (auto simp: dfs_inv_def st1_def pushVisited_def Let_def bucket_ok_def)
    show ?thesis
      by (rule foldM_list_invariant[OF loop, where I = "dfs_inv (groupNodeChildrenCountThreshold p) (length (nodes mg))"])
         (use i1 Suc.IH[OF Suc.prems(1)] in auto)
  qed
qed

lemma bucketGroups_ok:
  assumes "refs_ok mg" "bucketGroups n p lg mg = Some (Inr buckets)"
  shows "\<forall>b \<in> set buckets. bucket_ok (groupNodeChildrenCountThreshold p) (length (nodes mg)) b"
proof -
  let ?T = "groupNodeChildrenCountThreshold p"
  from assms(2) obtain st where
    loop: "foldM (visitRoot n p lg mg)
             (map (nodesById mg) (filter (\<lambda>nodeId. lg_incomingEdges lg nodeId = None) (lg_nodes lg)))
             \<lparr>groups = [], curGroup = [], visitedNodeIds = {}\<rparr> = Some (Inr st)"
    and b: "buckets = (if int (length (curGroup st)) < ?T \<and> length (curGroup st) > 0
                        then groups st @ [curGroup st] else groups st)"
    by (auto simp: bucketGroups_def Let_def split: option.splits sum.splits)
  have "dfs_inv ?T (length (nodes mg)) st"
  proof (rule foldM_list_invariant[OF loop, where I = "dfs_inv ?T (length (nodes mg))"])
    show "dfs_inv ?T (length (nodes mg)) \<lparr>groups = [], curGroup = [], visitedNodeIds = {}\<rparr>"
      by (simp add: dfs_inv_def)
  next
    fix x s t
    assume "dfs_inv ?T (length (nodes mg)) s" "visitRoot n p lg mg x s = Some (Inr t)"
    then show "dfs_inv ?T (length (nodes mg)) t"
      using dfs_inv_visit[OF assms(1)] by (auto simp: visitRoot_def split: option.splits)
  qed
  then show ?thesis using b by (auto simp: dfs_inv_def bucket_ok_def Suc_le_eq split: if_splits)
qed

lemma sections_inv_frame:
  "sections_inv n0 T c0 L g \<Longrightarrow> nodes g' = nodes g \<Longrightarrow> nodesById g' = nodesById g \<Longrightarrow>
   rootNodes g' = rootNodes g \<Longrightarrow> sections_inv n0 T c0 L g'"
  by (auto simp: sections_inv_def refs_ok_def node_at_def)

lemma sections_inv_push:
  assumes "sections_inv n0 T c0 L mg" "section_ok T x"
  shows "sections_inv n0 T c0 (Suc L) (push_node x mg)"
  using assms unfolding sections_inv_def refs_ok_def push_node_def node_at_def
  by (auto simp: nth_append less_Suc_eq)

lemma sections_inv_fold_parent:
  "sections_inv n0 T c0 L g \<Longrightarrow>
   sections_inv n0 T c0 L (fold (\<lambda>r g. upd_node r (\<lambda>x. x\<lparr>parentId := Some (h g)\<rparr>) g) ms g)"
proof (induction ms arbitrary: g)
  case Nil
  then show ?case by simp
next
  case (Cons m ms)
  have "sections_inv n0 T c0 L (upd_node m (\<lambda>x. x\<lparr>parentId := Some (h g)\<rparr>) g)"
    using Cons.prems by (rule sections_inv_upd_node) (simp_all add: section_ok_fields children_of_def)
  then show ?case using Cons.IH by simp
qed

lemma set_fold_remove1: "set (fold remove1 xs ys) \<subseteq> set ys"
proof (induction xs arbitrary: ys)
  case Nil
  then show ?case by simp
next
  case (Cons x xs)
  have "set (fold remove1 xs (remove1 x ys)) \<subseteq> set (remove1 x ys)" by (rule Cons.IH)
  also have "\<dots> \<subseteq> set ys" by (rule set_remove1_subset)
  finally show ?case by simp
qed

lemma sections_inv_rootNodes:
  assumes "sections_inv n0 T c0 L g" "\<forall>r \<in> set rs. r < L"
  shows "sections_inv n0 T c0 L (g\<lparr>rootNodes := rs\<rparr>)"
  using assms by (auto simp: sections_inv_def refs_ok_def node_at_def)

lemma bucket_ok_mono: "bucket_ok T L b \<Longrightarrow> L \<le> L' \<Longrightarrow> bucket_ok T L' b"
  by (auto simp: bucket_ok_def)


lemma sections_inv_makeSection:
  assumes inv: "sections_inv n0 T c0 L (fst st)"
    and bk: "bucket_ok T L (snd bucket)"
    and ng: "\<forall>r \<in> set (snd st). r < L"
    and run: "makeSection n cur gl bucket st = Some (Inr st')"
  shows "sections_inv n0 T c0 (Suc L) (fst st') \<and> (\<forall>r \<in> set (snd st'). r < Suc L)"
proof -
  define mg where "mg = fst st"
  define members where "members = snd bucket"
  define newId where "newId = sectionId (fst bucket) gl"
  define newNode where "newNode = (new_node GROUP_NODE newId 0
            (case cur of None \<Rightarrow> [] | Some c \<Rightarrow> namespace (node_at mg c) @ ''/'' @ node_id (node_at mg c)))
            \<lparr>parentId := map_option (\<lambda>c. node_id (node_at mg c)) cur,
             childrenIds := Some (map (\<lambda>r. node_id (node_at mg r)) members),
             sectionContainer := True\<rparr>"
  define mg1 where "mg1 = (push_node newNode mg)
            \<lparr>artificialGroupNodeIds :=
               Some ((case artificialGroupNodeIds mg of None \<Rightarrow> [] | Some ids \<Rightarrow> ids) @ [newId])\<rparr>"
  define mg2 where "mg2 = fold (\<lambda>r g. upd_node r (\<lambda>x. x\<lparr>parentId := Some (node_id (node_at g (length (nodes mg))))\<rparr>) g)
                  members mg1"
  have len: "length (nodes mg) = L" using inv by (simp add: sections_inv_def mg_def)
  have run': "(case foldM (updateNamespace n (replace_first ''___group___'' [] newId) cur) members mg2 of
           None \<Rightarrow> None
         | Some (Inl e) \<Rightarrow> Some (Inl e)
         | Some (Inr mg3) \<Rightarrow>
             Some (Inr ((if cur = None then
                   mg3\<lparr>rootNodes :=
                         (if namespace (node_at mg3 (length (nodes mg))) = []
                          then fold remove1 members (rootNodes mg3) @ [length (nodes mg)]
                          else fold remove1 members (rootNodes mg3))\<rparr>
                 else mg3), snd st @ [length (nodes mg)]))) = Some (Inr st')"
    using run
    unfolding makeSection_def Let_def mg_def[symmetric] members_def[symmetric] newId_def[symmetric]
      newNode_def[symmetric] mg1_def[symmetric] mg2_def[symmetric] .
  then obtain mg3 where
    loop: "foldM (updateNamespace n (replace_first ''___group___'' [] newId) cur) members mg2 = Some (Inr mg3)"
    and st': "st' = ((if cur = None then
                   mg3\<lparr>rootNodes :=
                         (if namespace (node_at mg3 (length (nodes mg))) = []
                          then fold remove1 members (rootNodes mg3) @ [length (nodes mg)]
                          else fold remove1 members (rootNodes mg3))\<rparr>
                 else mg3), snd st @ [length (nodes mg)])"
    by (cases "foldM (updateNamespace n (replace_first ''___group___'' [] newId) cur) members mg2")
       (auto split: sum.splits)
  have "section_ok T newNode"
    using bk by (simp add: section_ok_def newNode_def new_node_def children_of_def bucket_ok_def members_def)
  then have "sections_inv n0 T c0 (Suc L) (push_node newNode mg)"
    using inv by (simp add: sections_inv_push mg_def)
  then have i1: "sections_inv n0 T c0 (Suc L) mg1"
    by (rule sections_inv_frame) (simp_all add: mg1_def)
  have i2: "sections_inv n0 T c0 (Suc L) mg2"
    unfolding mg2_def using i1 by (rule sections_inv_fold_parent)
  have mem: "\<forall>r \<in> set members. r < Suc L" using bk by (auto simp: bucket_ok_def members_def)
  have i3: "sections_inv n0 T c0 (Suc L) mg3"
  proof (rule foldM_list_invariant[OF loop, where I = "sections_inv n0 T c0 (Suc L)"])
    show "sections_inv n0 T c0 (Suc L) mg2" by (rule i2)
  next
    fix x s t
    assume "x \<in> set members" "sections_inv n0 T c0 (Suc L) s"
      "updateNamespace n (replace_first ''___group___'' [] newId) cur x s = Some (Inr t)"
    then show "sections_inv n0 T c0 (Suc L) t"
      using sections_inv_updateNamespace[of n0 T c0 "Suc L" s x] mem by blast
  qed
  have roots: "\<forall>r \<in> set (fold remove1 members (rootNodes mg3)). r < Suc L"
    using i3 set_fold_remove1[of members "rootNodes mg3"] by (auto simp: sections_inv_def refs_ok_def)
  have "sections_inv n0 T c0 (Suc L) (fst st')"
  proof (cases "cur = None")
    case True
    then show ?thesis using i3 roots len unfolding st'
      by (auto intro!: sections_inv_rootNodes)
  next
    case False
    then show ?thesis using i3 by (auto simp: st')
  qed
  moreover have "\<forall>r \<in> set (snd st'). r < Suc L" using ng len by (auto simp: st')
  ultimately show ?thesis by simp
qed


lemma grown_makeSections:
  assumes "foldM (makeSection n cur gl) bs st = Some (Inr st')"
    and "grown n0 T c0 L st"
    and "\<forall>b \<in> set bs. bucket_ok T L (snd b)"
  shows "grown n0 T c0 L st'"
proof (rule foldM_list_invariant[OF assms(1), where I = "grown n0 T c0 L"])
  show "grown n0 T c0 L st" by (rule assms(2))
next
  fix b s t
  assume b: "b \<in> set bs" and s: "grown n0 T c0 L s" and run: "makeSection n cur gl b s = Some (Inr t)"
  from s obtain L' where L': "L \<le> L'" "sections_inv n0 T c0 L' (fst s)" "\<forall>r \<in> set (snd s). r < L'"
    by (auto simp: grown_def)
  have "bucket_ok T L' (snd b)" using assms(3) b L'(1) by (auto intro: bucket_ok_mono)
  from sections_inv_makeSection[OF L'(2) this L'(3) run] L'(1)
  show "grown n0 T c0 L t" unfolding grown_def by (intro exI[of _ "Suc L'"]) simp
qed

lemma sections_inv_splitGroup:
  assumes inv: "sections_inv n0 (groupNodeChildrenCountThreshold p) c0 L mg"
    and cur: "case cur of None \<Rightarrow> True | Some c \<Rightarrow> c < n0 \<and> \<not> int (c0 c) \<le> groupNodeChildrenCountThreshold p"
    and ch: "refs_below L children"
    and run: "splitGroup n p cur children mg = Some (Inr (mg', children'))"
  shows "\<exists>L'. L \<le> L' \<and> sections_inv n0 (groupNodeChildrenCountThreshold p) c0 L' mg' \<and> refs_below L' children'"
proof -
  let ?T = "groupNodeChildrenCountThreshold p"
  define lg where "lg = getLayoutGraph p (case cur of None \<Rightarrow> [] | Some c \<Rightarrow> node_id (node_at mg c))
            children mg (testMode p) True"
  have len: "length (nodes mg) = L" and ro: "refs_ok mg" using inv by (simp_all add: sections_inv_def)
  from run obtain buckets where bk: "bucketGroups n p lg mg = Some (Inr buckets)"
    unfolding splitGroup_def Let_def lg_def[symmetric]
    by (cases "bucketGroups n p lg mg") (auto split: sum.splits)
  from run bk obtain mg1 news where
    secs: "foldM (makeSection n cur (length buckets)) (zip [0..<length buckets] buckets) (mg, []) = Some (Inr (mg1, news))"
    and res: "mg' = (case cur of None \<Rightarrow> mg1
                      | Some c \<Rightarrow> upd_node c (\<lambda>x. x\<lparr>childrenIds :=
                             Some (map (\<lambda>r. node_id (node_at mg1 r)) news)\<rparr>) mg1)"
             "children' = (if buckets = [] then children else map Some news)"
    unfolding splitGroup_def Let_def lg_def[symmetric]
    by (cases "foldM (makeSection n cur (length buckets)) (zip [0..<length buckets] buckets) (mg, [])")
       (auto split: sum.splits)
  have bok: "\<forall>b \<in> set (zip [0..<length buckets] buckets). bucket_ok ?T L (snd b)"
    using bucketGroups_ok[OF ro bk] len by (auto dest: set_zip_rightD)
  have "grown n0 ?T c0 L (mg, [])" using inv by (auto simp: grown_def)
  from grown_makeSections[OF secs this bok]
  obtain L' where L': "L \<le> L'" "sections_inv n0 ?T c0 L' mg1" "\<forall>r \<in> set news. r < L'"
    by (auto simp: grown_def)
  have "sections_inv n0 ?T c0 L' mg'"
  proof (cases cur)
    case None
    then show ?thesis using L'(2) res by simp
  next
    case (Some c)
    then have "c < n0" "\<not> int (c0 c) \<le> ?T" using cur by simp_all
    then show ?thesis using L'(2) res Some by (simp add: sections_inv_upd_old)
  qed
  moreover have "refs_below L' children'"
    using ch L'(1,3) res(2) by (auto simp: refs_below_def)
  ultimately show ?thesis using L'(1) by blast
qed

lemma refs_below_childrenOfScope:
  assumes "sections_inv n0 T c0 L mg"
  shows "refs_below L (childrenOfScope mg cur)"
  using assms
  by (auto simp: refs_below_def childrenOfScope_def sections_inv_def refs_ok_def split: option.splits)

lemma refs_below_groupChildren: "refs_below L cs \<Longrightarrow> refs_below L (groupChildren g cs)"
  by (auto simp: refs_below_def groupChildren_def)

lemma refs_below_mono: "refs_below L q \<Longrightarrow> L \<le> L' \<Longrightarrow> refs_below L' q"
  by (auto simp: refs_below_def)

lemma refs_below_append: "refs_below L (q @ q') = (refs_below L q \<and> refs_below L q')"
  by (auto simp: refs_below_def)

lemma sections_inv_splitLoop:
  "sections_inv n0 (groupNodeChildrenCountThreshold p) c0 L mg \<Longrightarrow> refs_below L queue \<Longrightarrow>
   splitLoop n p queue flag mg = Some (Inr (flag', mg')) \<Longrightarrow>
   \<exists>L'. L \<le> L' \<and> sections_inv n0 (groupNodeChildrenCountThreshold p) c0 L' mg'"
proof (induction n arbitrary: L mg queue flag)
  case 0
  then show ?case by (cases queue) auto
next
  case (Suc n)
  let ?T = "groupNodeChildrenCountThreshold p"
  show ?case
  proof (cases queue)
    case Nil
    then show ?thesis using Suc.prems by auto
  next
    case (Cons cur rest)
    define children where "children = childrenOfScope mg cur"
    have ch: "refs_below L children" using Suc.prems(1) by (simp add: children_def refs_below_childrenOfScope)
    have rest: "refs_below L rest" using Suc.prems(2) Cons by (auto simp: refs_below_def)
    show ?thesis
    proof (cases "int (length children) > ?T")
      case False
      then have "splitLoop n p (rest @ groupChildren mg children) flag mg = Some (Inr (flag', mg'))"
        using Suc.prems(3) Cons by (simp add: children_def Let_def)
      moreover have "refs_below L (rest @ groupChildren mg children)"
        using rest ch by (simp add: refs_below_append refs_below_groupChildren)
      ultimately show ?thesis using Suc.IH[OF Suc.prems(1)] by blast
    next
      case True
      then obtain mg1 children1 where
        sg: "splitGroup n p cur children mg = Some (Inr (mg1, children1))"
        and lp: "splitLoop n p (rest @ groupChildren mg1 children1) True mg1 = Some (Inr (flag', mg'))"
        using Suc.prems(3) Cons
        by (cases "splitGroup n p cur children mg") (auto simp: children_def Let_def split: sum.splits)
      have curok: "case cur of None \<Rightarrow> True | Some c \<Rightarrow> c < n0 \<and> \<not> int (c0 c) \<le> ?T"
      proof (cases cur)
        case None
        then show ?thesis by simp
      next
        case (Some c)
        have cL: "c < L" using Suc.prems(2) Cons Some by (auto simp: refs_below_def)
        have "int (length (children_of (node_at mg c))) > ?T"
          using True Some by (simp add: children_def childrenOfScope_def)
        then have "\<not> section_ok ?T (node_at mg c)" by (simp add: section_ok_def)
        have "c < n0"
        proof (rule ccontr)
          assume "\<not> c < n0"
          then have "n0 \<le> c" by simp
          then have "section_ok ?T (node_at mg c)" using Suc.prems(1) cL by (simp add: sections_inv_def)
          then show False using \<open>\<not> section_ok ?T (node_at mg c)\<close> by simp
        qed
        moreover have "\<not> int (c0 c) \<le> ?T"
        proof
          assume "int (c0 c) \<le> ?T"
          then have "length (children_of (node_at mg c)) = c0 c"
            using Suc.prems(1) \<open>c < n0\<close> by (simp add: sections_inv_def)
          then show False
            using \<open>int (c0 c) \<le> ?T\<close> \<open>int (length (children_of (node_at mg c))) > ?T\<close> by simp
        qed
        ultimately show ?thesis using Some by simp
      qed
      from sections_inv_splitGroup[OF Suc.prems(1) curok ch sg]
      obtain L1 where L1: "L \<le> L1" "sections_inv n0 ?T c0 L1 mg1" "refs_below L1 children1" by blast
      have "refs_below L1 (rest @ groupChildren mg1 children1)"
        using rest L1 by (simp add: refs_below_append refs_below_groupChildren refs_below_mono)
      from Suc.IH[OF L1(2) this lp] obtain L' where "L1 \<le> L'" "sections_inv n0 ?T c0 L' mg'" by blast
      then show ?thesis using L1(1) by (intro exI[of _ L']) simp
    qed
  qed
qed

lemma split_sections_inv:
  assumes "refs_ok mg" "splitLargeGroupNodes n p mg = Some (Inr mg')"
    and c0: "c0 = (\<lambda>r. length (children_of (node_at mg r)))"
  shows "\<exists>L'. length (nodes mg) \<le> L'
           \<and> sections_inv (length (nodes mg)) (groupNodeChildrenCountThreshold p) c0 L' mg'"
proof -
  let ?T = "groupNodeChildrenCountThreshold p"
  let ?L = "length (nodes mg)"
  from assms(2) obtain flag g where
    lp: "splitLoop n p [None] False mg = Some (Inr (flag, g))"
    and g: "mg' = g \<or> generateLayoutGraphConnections g = Inr mg'"
    by (auto simp: splitLargeGroupNodes_def split: option.splits sum.splits if_splits)
  have "\<And>r. \<not> (?L \<le> r \<and> r < ?L)" by simp
  then have "sections_inv ?L ?T c0 ?L mg" using assms(1) unfolding sections_inv_def c0 by blast
  from sections_inv_splitLoop[OF this _ lp]
  obtain L' where L': "?L \<le> L'" "sections_inv ?L ?T c0 L' g" by (auto simp: refs_below_def)
  have "sections_inv ?L ?T c0 L' mg'"
    using g
  proof
    assume "mg' = g"
    then show ?thesis using L'(2) by simp
  next
    assume "generateLayoutGraphConnections g = Inr mg'"
    then have "mg' = g\<lparr>layoutGraphEdges := Map.empty\<rparr>" by (rule generate_layoutGraphEdges_empty)
    then show ?thesis using L'(2) by (auto intro: sections_inv_frame)
  qed
  then show ?thesis using L'(1) by blast
qed

lemma refs_ok_splitLargeGroupNodes:
  "refs_ok mg \<Longrightarrow> splitLargeGroupNodes n p mg = Some (Inr mg') \<Longrightarrow> refs_ok mg'"
  using split_sections_inv[of mg n p mg' "\<lambda>r. length (children_of (node_at mg r))"]
  by (auto simp: sections_inv_def)



lemma bounded_scope:
  assumes "bounded T mg" "case cur of None \<Rightarrow> True | Some c \<Rightarrow> c < length (nodes mg)"
  shows "\<not> int (length (childrenOfScope mg cur)) > T"
  using assms
  by (auto simp: bounded_def childrenOfScope_def list_all_length node_at_def split: option.splits)

lemma refs_ok_childrenOfScope:
  assumes "refs_ok mg"
  shows "refs_below (length (nodes mg)) (childrenOfScope mg cur)"
  using assms
  by (auto simp: refs_below_def childrenOfScope_def refs_ok_def split: option.splits)

lemma splitLoop_bounded:
  "refs_ok mg \<Longrightarrow> bounded (groupNodeChildrenCountThreshold p) mg \<Longrightarrow>
   refs_below (length (nodes mg)) queue \<Longrightarrow>
   splitLoop n p queue flag mg = Some r \<Longrightarrow> r = Inr (flag, mg)"
proof (induction n arbitrary: queue)
  case 0
  then show ?case by (cases queue) auto
next
  case (Suc n)
  show ?case
  proof (cases queue)
    case Nil
    then show ?thesis using Suc.prems by simp
  next
    case (Cons cur rest)
    have "case cur of None \<Rightarrow> True | Some c \<Rightarrow> c < length (nodes mg)"
      using Suc.prems(3) Cons by (auto simp: refs_below_def split: option.splits)
    from bounded_scope[OF Suc.prems(2) this]
    have "splitLoop n p (rest @ groupChildren mg (childrenOfScope mg cur)) flag mg = Some r"
      using Suc.prems(4) Cons by (simp add: Let_def)
    moreover have "refs_below (length (nodes mg)) (rest @ groupChildren mg (childrenOfScope mg cur))"
      using Suc.prems(1,3) Cons
      by (simp add: refs_below_append refs_below_groupChildren refs_ok_childrenOfScope)
         (simp add: refs_below_def)
    ultimately show ?thesis using Suc.IH[OF Suc.prems(1,2)] by blast
  qed
qed

lemma groupChildren_Some: "c \<in> set (groupChildren mg cs) \<Longrightarrow> \<exists>r. c = Some r"
  by (cases c) (auto simp: groupChildren_def isGroupNode_def)

lemma splitLoop_terminates:
  assumes ro: "refs_ok mg" and bd: "bounded (groupNodeChildrenCountThreshold p) mg"
    and rk: "ranked rk mg"
  shows "refs_below (length (nodes mg)) queue \<Longrightarrow> None \<notin> set queue \<Longrightarrow>
         \<exists>n. splitLoop n p queue flag mg = Some (Inr (flag, mg))"
proof (induction "mset (map (rank_of rk) queue)" arbitrary: queue
        rule: wf_induct_rule[OF wf_mult[OF wf_less_than]])
  case (1 queue)
  show ?case
  proof (cases queue)
    case Nil
    then show ?thesis by (intro exI[of _ 0]) simp
  next
    case (Cons cur rest)
    then obtain c where c: "cur = Some c" using "1.prems"(2) by (cases cur) auto
    have cL: "c < length (nodes mg)" using "1.prems"(1) Cons c by (auto simp: refs_below_def)
    define kids where "kids = groupChildren mg (childrenOfScope mg (Some c))"
    have kr: "\<forall>k \<in> set kids. rank_of rk k < rk c"
      using rk cL by (auto simp: ranked_def list_all_iff kids_def)
    have "(mset (map (rank_of rk) rest) + mset (map (rank_of rk) kids),
           mset (map (rank_of rk) rest) + {#rk c#}) \<in> mult less_than"
      by (rule one_step_implies_mult) (use kr in auto)
    then have dec: "(mset (map (rank_of rk) (rest @ kids)), mset (map (rank_of rk) queue)) \<in> mult less_than"
      using Cons c by (simp add: rank_of_def)
    have rb: "refs_below (length (nodes mg)) (rest @ kids)"
      using "1.prems"(1) Cons ro
      by (simp add: refs_below_append kids_def refs_below_groupChildren refs_ok_childrenOfScope)
         (simp add: refs_below_def)
    have nn: "None \<notin> set (rest @ kids)"
      using "1.prems"(2) Cons groupChildren_Some[of None mg] by (auto simp: kids_def)
    from "1.hyps"[OF dec rb nn] obtain n where n: "splitLoop n p (rest @ kids) flag mg = Some (Inr (flag, mg))"
      by blast
    have "\<not> int (length (childrenOfScope mg (Some c))) > groupNodeChildrenCountThreshold p"
      using bounded_scope[OF bd, of "Some c"] cL by simp
    then have "splitLoop (Suc n) p queue flag mg = Some (Inr (flag, mg))"
      using n Cons c by (simp add: Let_def kids_def)
    then show ?thesis by blast
  qed
qed

text \<open>
  C3, amended. For every model graph whose references denote nodes of the store: if the
  root scope and every node have at most threshold-many direct children (as after a
  first run that left no group with more sections than the threshold), then a run of
  \<open>splitLargeGroupNodes\<close> makes no split and, whenever it returns, returns the graph
  unchanged; and it does return, given enough fuel, when the group hierarchy is acyclic
  (group children have a smaller rank than their parent).
\<close>

theorem resplit_bounded_unchanged:
  assumes "refs_ok mg" "bounded (groupNodeChildrenCountThreshold p) mg"
  shows "(\<forall>n r. splitLargeGroupNodes n p mg = Some r \<longrightarrow> r = Inr mg)
         \<and> (ranked rk mg \<longrightarrow> (\<exists>n. splitLargeGroupNodes n p mg = Some (Inr mg)))"
proof (intro conjI allI impI)
  fix n r assume "splitLargeGroupNodes n p mg = Some r"
  then obtain r' where r': "splitLoop n p [None] False mg = Some r'"
    by (auto simp: splitLargeGroupNodes_def split: option.splits)
  then have "r' = Inr (False, mg)"
    using splitLoop_bounded[OF assms, of "[None]" n False r'] by (simp add: refs_below_def)
  then show "r = Inr mg"
    using r' \<open>splitLargeGroupNodes n p mg = Some r\<close> by (simp add: splitLargeGroupNodes_def)
next
  assume rk: "ranked rk mg"
  define kids where "kids = groupChildren mg (childrenOfScope mg None)"
  have "refs_below (length (nodes mg)) kids"
    using assms(1) by (simp add: kids_def refs_below_groupChildren refs_ok_childrenOfScope)
  moreover have "None \<notin> set kids" using groupChildren_Some[of None mg] by (auto simp: kids_def)
  ultimately obtain n where n: "splitLoop n p kids False mg = Some (Inr (False, mg))"
    using splitLoop_terminates[OF assms rk] by blast
  have "\<not> int (length (childrenOfScope mg None)) > groupNodeChildrenCountThreshold p"
    using bounded_scope[OF assms(2), of None] by simp
  then have "splitLoop (Suc n) p [None] False mg = Some (Inr (False, mg))"
    using n by (simp add: Let_def kids_def)
  then have "splitLargeGroupNodes (Suc n) p mg = Some (Inr mg)"
    by (simp add: splitLargeGroupNodes_def)
  then show "\<exists>n. splitLargeGroupNodes n p mg = Some (Inr mg)" by blast
qed


lemma refs_ok_seven_children: "refs_ok seven_children"
  by (auto simp: refs_ok_def seven_children_def createEmptyModelGraph_def split: if_splits)


lemma refs_ok_three_children: "refs_ok three_children"
  by (auto simp: refs_ok_def three_children_def createEmptyModelGraph_def split: if_splits)

section \<open>The splitter on examples\<close>



text \<open>
  C3 fails as stated: a second run on the output of that first run splits \<open>g\<close> again (its
  four sections go into two new sections), so the graph changes: the store grows from 12
  to 14 nodes and \<open>g\<close> gets a new child list.
\<close>

theorem resplit_splits_again:
  "returns (splitLargeGroupNodes 10 split2 seven_children)
     (\<lambda>mg1. returns (splitLargeGroupNodes 20 split2 mg1)
        (\<lambda>mg2. length (nodes mg1) = 12 \<and> length (nodes mg2) = 14
              \<and> children_of (node_at mg1 0) \<noteq> children_of (node_at mg2 0)
              \<and> mg2 \<noteq> mg1))"
proof -
  have "returns (splitLargeGroupNodes 10 split2 seven_children)
     (\<lambda>mg1. returns (splitLargeGroupNodes 20 split2 mg1)
        (\<lambda>mg2. length (nodes mg1) = 12 \<and> length (nodes mg2) = 14
              \<and> children_of (node_at mg1 0) \<noteq> children_of (node_at mg2 0)))"
    by code_simp
  then show ?thesis
    by (auto simp: returns_def split: option.splits sum.splits)
qed

text \<open>
  The witness of the amended C3: the first run on the group with three children leaves
  two sections under \<open>g\<close>; on that output a second run returns the graph unchanged.
\<close>

theorem resplit_bounded_unchanged_witness:
  "refs_ok three_children
   \<and> returns (splitLargeGroupNodes 10 split2 three_children)
       (\<lambda>mg1. refs_ok mg1 \<and> bounded (groupNodeChildrenCountThreshold split2) mg1
             \<and> ranked example_rank mg1 \<and> length (nodes mg1) = 6
             \<and> splitLargeGroupNodes 10 split2 mg1 = Some (Inr mg1)
             \<and> (\<exists>n. splitLargeGroupNodes n split2 mg1 = Some (Inr mg1)))"
proof -
  have "returns (splitLargeGroupNodes 10 split2 three_children)
       (\<lambda>mg1. bounded (groupNodeChildrenCountThreshold split2) mg1
             \<and> ranked example_rank mg1 \<and> length (nodes mg1) = 6
             \<and> splitLargeGroupNodes 10 split2 mg1 \<noteq> None)"
    by code_simp
  then obtain mg1 r where mg1: "splitLargeGroupNodes 10 split2 three_children = Some (Inr mg1)"
    and b: "bounded (groupNodeChildrenCountThreshold split2) mg1"
    and rk: "ranked example_rank mg1" and l: "length (nodes mg1) = 6"
    and r: "splitLargeGroupNodes 10 split2 mg1 = Some r"
    by (auto dest!: returnsE)
  have ro: "refs_ok mg1" using refs_ok_splitLargeGroupNodes[OF refs_ok_three_children mg1] .
  from resplit_bounded_unchanged[OF ro b, of example_rank] r rk
  have "splitLargeGroupNodes 10 split2 mg1 = Some (Inr mg1)"
    and "\<exists>n. splitLargeGroupNodes n split2 mg1 = Some (Inr mg1)" by auto
  then show ?thesis using mg1 ro b rk l refs_ok_three_children by (simp add: returns_def)
qed


section \<open>The aggregator returns on acyclic hierarchies\<close>

lemma foldM_total:
  assumes "\<And>x s. x \<in> set xs \<Longrightarrow> \<exists>t. f x s = Some (Inr t)"
  shows "\<exists>t. foldM f xs s = Some (Inr t)"
  using assms
proof (induction xs arbitrary: s)
  case Nil
  then show ?case by simp
next
  case (Cons x xs)
  from Cons.prems[of x s] obtain t where t: "f x s = Some (Inr t)" by auto
  from Cons.IH[of t] Cons.prems obtain u where "foldM f xs t = Some (Inr u)" by auto
  then show ?case using t by simp
qed

lemma gatherDescendants_total:
  assumes ro: "refs_ok mg" and rk: "ranked rk mg"
  shows "r < length (nodes mg) \<Longrightarrow> rk r < n \<Longrightarrow> \<exists>ds'. gatherDescendants n mg r ds = Some (Inr ds')"
proof (induction n arbitrary: r ds)
  case 0
  then show ?case by simp
next
  case (Suc n)
  have kids: "\<And>c. c \<in> set (groupChildren mg (childrenOfScope mg (Some r))) \<Longrightarrow> rank_of rk c < rk r"
    using rk Suc.prems(1) by (auto simp: ranked_def list_all_iff)
  show ?case
    unfolding gatherDescendants.simps
  proof (rule foldM_total)
    fix childId s
    assume cin: "childId \<in> set (children_of (node_at mg r))"
    show "\<exists>t. (case nodesById mg childId of
                 None \<Rightarrow> Some (Inr s)
               | Some child \<Rightarrow>
                   (let ds1 = (if isGroupNode (Some (node_at mg child))
                                  \<or> (isAssetNode (Some (node_at mg child))
                                      \<and> \<not> hideInLayout (node_at mg child))
                               then s @ [child] else s)
                    in if isGroupNode (Some (node_at mg child))
                       then gatherDescendants n mg child ds1
                       else Some (Inr ds1))) = Some (Inr t)"
    proof (cases "nodesById mg childId")
      case None
      then show ?thesis by simp
    next
      case (Some c)
      have cL: "c < length (nodes mg)" using ro Some by (auto simp: refs_ok_def)
      show ?thesis
      proof (cases "isGroupNode (Some (node_at mg c))")
        case False
        then show ?thesis using Some by (simp add: Let_def)
      next
        case True
        have "Some c \<in> set (groupChildren mg (childrenOfScope mg (Some r)))"
          using cin Some True by (force simp: groupChildren_def childrenOfScope_def)
        from kids[OF this] have "rk c < rk r" by (simp add: rank_of_def)
        then have "rk c < n" using Suc.prems(2) by simp
        from Suc.IH[OF cL this] show ?thesis using Some True by (simp add: Let_def)
      qed
    qed
  qed
qed

lemma rank_bound: "\<exists>B. \<forall>r < L. (rk :: nat \<Rightarrow> nat) r < B"
proof (induction L)
  case 0
  then show ?case by simp
next
  case (Suc L)
  then obtain B where "\<forall>r < L. rk r < B" by blast
  then have "\<forall>r < Suc L. rk r < max B (Suc (rk L))" by (auto simp: less_Suc_eq)
  then show ?case by blast
qed

lemma ranked_upd_node:
  assumes "keeps_shape f" "ranked rk g"
  shows "ranked rk (upd_node k f g)"
proof -
  have n: "\<And>x. children_of (node_at (upd_node k f g) x) = children_of (node_at g x)
              \<and> nodeType (node_at (upd_node k f g) x) = nodeType (node_at g x)"
    using assms(1) by (simp add: node_at_upd keeps_shape_def children_of_def)
  have "\<And>c. groupChildren (upd_node k f g) (childrenOfScope (upd_node k f g) (Some c))
         = groupChildren g (childrenOfScope g (Some c))"
    unfolding groupChildren_def childrenOfScope_def
    by (auto simp: n upd_node_frame isGroupNode_def intro!: filter_cong split: option.splits)
  then show ?thesis using assms(2) by (simp add: ranked_def upd_node_frame)
qed

lemma refs_ok_upd_node: "refs_ok g \<Longrightarrow> refs_ok (upd_node k f g)"
  by (simp add: refs_ok_def upd_node_frame)

lemma populateNode_total:
  assumes "walkable rk L k st" "k < L" "\<forall>r < L. rk r < n"
  shows "\<exists>t. populateNode n k st = Some (Inr t) \<and> walkable rk L (Suc k) t"
proof (cases "isGroupNode (Some (node_at (cs_graph st) k))")
  case False
  then show ?thesis using assms(1) by (simp add: populateNode_def Let_def walkable_def)
next
  case True
  have a: "refs_ok (cs_graph st)" and b: "ranked rk (cs_graph st)"
    and c: "k < length (nodes (cs_graph st))" and d: "rk k < n"
    using assms by (simp_all add: walkable_def)
  from gatherDescendants_total[OF a b c d, of "[]"]
  obtain ds where ds: "gatherDescendants n (cs_graph st) k [] = Some (Inr ds)" by blast
  show ?thesis
    using True ds assms(1)
    by (auto simp: populateNode_def Let_def walkable_def upd_node_frame keeps_shape_def
          intro!: refs_ok_upd_node ranked_upd_node)
qed

lemma populate_total:
  assumes "refs_ok mg" "ranked rk mg"
  shows "\<exists>n mg'. populateDescendantsAndCounts n mg = Some (Inr mg')"
proof -
  obtain B where B: "\<forall>r < length (nodes mg). rk r < B" using rank_bound by blast
  have "\<exists>s'. foldM (populateNode B) [0..<length (nodes mg)]
             \<lparr>cs_graph = mg, minAssetNodeCount = MAX_VALUE, maxAssetNodeCount = NEGATIVE_INFINITY\<rparr> = Some (Inr s')
          \<and> walkable rk (length (nodes mg)) (length (nodes mg)) s'"
  proof (rule foldM_upt_total[where I = "walkable rk (length (nodes mg))"])
    show "walkable rk (length (nodes mg)) 0
            \<lparr>cs_graph = mg, minAssetNodeCount = MAX_VALUE, maxAssetNodeCount = NEGATIVE_INFINITY\<rparr>"
      using assms by (simp add: walkable_def)
  next
    fix k s assume "k < length (nodes mg)" "walkable rk (length (nodes mg)) k s"
    then show "\<exists>t. populateNode B k s = Some (Inr t) \<and> walkable rk (length (nodes mg)) (Suc k) t"
      using populateNode_total[of rk "length (nodes mg)" k s B] B by blast
  qed
  then obtain s' where "foldM (populateNode B) [0..<length (nodes mg)]
             \<lparr>cs_graph = mg, minAssetNodeCount = MAX_VALUE, maxAssetNodeCount = NEGATIVE_INFINITY\<rparr> = Some (Inr s')"
    by blast
  then have "populateDescendantsAndCounts B mg =
      Some (Inr ((cs_graph s')\<lparr>minDescendantAssetNodeCount := minAssetNodeCount s',
                                maxDescendantAssetNodeCount := maxAssetNodeCount s'\<rparr>))"
    by (simp add: populateDescendantsAndCounts_def)
  then show ?thesis by blast
qed

text \<open>
  C7. For every model graph, after \<open>populateDescendantsAndCounts\<close> has run, every group
  node's \<open>descendantsAssetNodeIds\<close> is a subset of its \<open>descendantsNodeIds\<close>, and the length
  of \<open>descendantsAssetNodeIds\<close> lies between the graph's \<open>minDescendantAssetNodeCount\<close> and
  \<open>maxDescendantAssetNodeCount\<close>. The function does run to its end, given enough fuel,
  whenever the graph's references denote nodes of the store and the group hierarchy is
  acyclic; on cyclic \<open>childrenIds\<close> the recursion of \<open>gatherDescendants\<close> has no end.
\<close>

theorem populate_descendant_consistency:
  "(populateDescendantsAndCounts n mg = Some (Inr mg') \<longrightarrow> descendant_consistency mg')
   \<and> (refs_ok mg \<longrightarrow> ranked rk mg \<longrightarrow>
        (\<exists>m g. populateDescendantsAndCounts m mg = Some (Inr g) \<and> descendant_consistency g))"
proof (intro conjI impI)
  assume "populateDescendantsAndCounts n mg = Some (Inr mg')"
  then show "descendant_consistency mg'" by (rule populate_consistent)
next
  assume "refs_ok mg" "ranked rk mg"
  then obtain m g where "populateDescendantsAndCounts m mg = Some (Inr g)"
    using populate_total by blast
  then show "\<exists>m g. populateDescendantsAndCounts m mg = Some (Inr g) \<and> descendant_consistency g"
    using populate_consistent by blast
qed

lemma refs_ok_nested_example: "refs_ok nested_example"
  by (auto simp: refs_ok_def nested_example_def createEmptyModelGraph_def split: if_splits)

text \<open>
  At a group \<open>g\<close> holding a group \<open>h\<close>, an asset and a dangling id, where \<open>h\<close> holds two
  assets and a hidden one: two units of fuel are enough.
\<close>

theorem populate_descendant_consistency_witness:
  "refs_ok nested_example \<and> ranked nested_rank nested_example
   \<and> returns (populateDescendantsAndCounts 2 nested_example)
     (\<lambda>mg. descendant_consistency mg
          \<and> map descendantsNodeIds (nodes mg) = [Some [''h'', ''b'', ''c'', ''a''], Some [''b'', ''c''], None, None, None, None]
          \<and> minDescendantAssetNodeCount mg = Finite 2 \<and> maxDescendantAssetNodeCount mg = Finite 3)
   \<and> (\<exists>m g. populateDescendantsAndCounts m nested_example = Some (Inr g) \<and> descendant_consistency g)"
proof -
  have rk: "ranked nested_rank nested_example" by code_simp
  have "returns (populateDescendantsAndCounts 2 nested_example)
     (\<lambda>mg. map descendantsNodeIds (nodes mg) = [Some [''h'', ''b'', ''c'', ''a''], Some [''b'', ''c''], None, None, None, None]
          \<and> minDescendantAssetNodeCount mg = Finite 2 \<and> maxDescendantAssetNodeCount mg = Finite 3)"
    by code_simp
  then obtain mg where mg: "populateDescendantsAndCounts 2 nested_example = Some (Inr mg)"
    and rest: "map descendantsNodeIds (nodes mg) = [Some [''h'', ''b'', ''c'', ''a''], Some [''b'', ''c''], None, None, None, None]
          \<and> minDescendantAssetNodeCount mg = Finite 2 \<and> maxDescendantAssetNodeCount mg = Finite 3"
    by (auto dest!: returnsE)
  from populate_descendant_consistency[of 2 nested_example mg nested_rank]
    mg rest rk refs_ok_nested_example
  show ?thesis by (simp add: returns_def)
qed


end
